theory Spec2Isabelle
  imports Complex_Main "HOL-Library.Word" "HOL-Library.Multiset"
begin

unbundle bit_operations_syntax

chapter \<open>Legacy manual migration: fingerprints, duplicate grouping, link resolution\<close>

text \<open>
  A shallow embedding of \<^verbatim>\<open>build.mjs\<close>. JavaScript strings are sequences of UTF-16
  code units (\<^verbatim>\<open>charCodeAt\<close> reads one unit, \<^verbatim>\<open>length\<close> counts them), so a string
  is a list of 16-bit words. \<^verbatim>\<open>BigInt\<close> values are unbounded integers: they are
  modelled as \<open>int\<close>, with every mask of the source written out.
\<close>

section \<open>Strings\<close>

type_synonym jsstring = "16 word list"

text \<open>An ASCII literal of the source as a JavaScript string.\<close>

definition js :: "string \<Rightarrow> jsstring" where
  "js s = map of_char s"

section \<open>Tokens and SimHash\<close>

text \<open>
  \<^verbatim>\<open>fnv1a64\<close>: FNV-1a over the code units, on BigInt, masked to 64 bits after each
  multiplication.
\<close>

definition fnv_offset_basis :: int where
  "fnv_offset_basis = 0xcbf29ce484222325"

definition fnv_prime :: int where
  "fnv_prime = 0x100000001b3"

definition fnv1a64_step :: "int \<Rightarrow> 16 word \<Rightarrow> int" where
  "fnv1a64_step hash c = ((hash XOR uint c) * fnv_prime) AND 0xFFFFFFFFFFFFFFFF"

definition fnv1a64 :: "jsstring \<Rightarrow> int" where
  "fnv1a64 str = fold (\<lambda>c hash. fnv1a64_step hash c) str fnv_offset_basis"

text \<open>
  \<^verbatim>\<open>simhash64\<close>: an array \<open>v\<close> of 64 counters, one vote per token and bit
  position (\<^verbatim>\<open>(h >> BigInt(i)) & 1n\<close>), then the signature built by OR-ing \<open>1n << i\<close>
  for every positive counter.
\<close>

definition simhash_bits :: nat where
  "simhash_bits = 64"

definition simhash_vote :: "int \<Rightarrow> nat \<Rightarrow> int" where
  "simhash_vote h i = (if (drop_bit i h) AND 1 = 1 then 1 else - 1)"

definition simhash_add :: "int \<Rightarrow> int list \<Rightarrow> int list" where
  "simhash_add h v = fold (\<lambda>i v. v[i := v ! i + simhash_vote h i]) [0..<simhash_bits] v"

definition simhash_acc :: "jsstring list \<Rightarrow> int list" where
  "simhash_acc tokens = fold (\<lambda>t v. simhash_add (fnv1a64 t) v) tokens (replicate simhash_bits 0)"

definition simhash_sig :: "int list \<Rightarrow> int" where
  "simhash_sig v = fold (\<lambda>i sig. if v ! i > 0 then sig OR push_bit i 1 else sig) [0..<simhash_bits] 0"

definition simhash64 :: "jsstring list \<Rightarrow> int" where
  "simhash64 tokens = simhash_sig (simhash_acc tokens)"

text \<open>
  \<^verbatim>\<open>hamming64\<close>: \<^verbatim>\<open>while (x) { x &= (x - 1n); count++; }\<close>. On a negative BigInt the
  loop never ends, so the loop is a partial function: \<open>None\<close> is "does not return".
\<close>

partial_function (option) hamming64_loop :: "int \<Rightarrow> nat \<Rightarrow> nat option" where
  "hamming64_loop x cnt =
     (if x \<noteq> 0 then hamming64_loop (x AND (x - 1)) (cnt + 1) else Some cnt)"

declare hamming64_loop.simps [code]

definition hamming64 :: "int \<Rightarrow> int \<Rightarrow> nat option" where
  "hamming64 a b = hamming64_loop (a XOR b) 0"

text \<open>
  The signed accumulator of bit position \<open>i\<close> as the specification words it: plus one
  for each token whose hash has bit \<open>i\<close> set, minus one otherwise, repetitions counted.
\<close>

definition spec_accumulator :: "jsstring list \<Rightarrow> nat \<Rightarrow> int" where
  "spec_accumulator tokens i = (\<Sum>t\<leftarrow>tokens. if bit (fnv1a64 t) i then 1 else - 1)"


section \<open>Token sets and Jaccard similarity\<close>

text \<open>
  A JavaScript \<^verbatim>\<open>Set\<close> keeps its elements in insertion order, each once: it is a list
  without repetition. \<^verbatim>\<open>add\<close> appends an element that is not there yet,
  \<^verbatim>\<open>new Set(iterable)\<close> adds the elements one after the other, \<^verbatim>\<open>size\<close> is the length.
\<close>

definition set_has :: "'a list \<Rightarrow> 'a \<Rightarrow> bool" where
  "set_has s x = (x \<in> set s)"

definition set_add :: "'a list \<Rightarrow> 'a \<Rightarrow> 'a list" where
  "set_add s x = (if set_has s x then s else s @ [x])"

definition new_Set :: "'a list \<Rightarrow> 'a list" where
  "new_Set xs = fold (\<lambda>x s. set_add s x) xs []"

text \<open>
  \<^verbatim>\<open>jaccard\<close>: the loop over \<open>bSet\<close> carries the counter \<^verbatim>\<open>inter\<close> (here
  \<open>icount\<close>) and the set \<open>seen\<close>. The quotient \<^verbatim>\<open>inter / union\<close> of the two counts is
  taken exactly; the source rounds it to a double, which decides the comparison with
  0.98 the same way for every union below \<open>10^14\<close> elements.
\<close>

fun jaccard_loop :: "'a list \<Rightarrow> nat \<Rightarrow> 'a list \<Rightarrow> nat \<times> 'a list" where
  "jaccard_loop [] icount seen = (icount, seen)"
| "jaccard_loop (x # xs) icount seen =
     jaccard_loop xs (if set_has seen x then icount + 1 else icount) (set_add seen x)"

definition jaccard :: "'a list \<Rightarrow> 'a list \<Rightarrow> real" where
  "jaccard aSet bSet =
     (case jaccard_loop bSet 0 (new_Set aSet) of (icount, seen) \<Rightarrow>
        let ucount = length seen in
        if ucount = 0 then 1 else real icount / real ucount)"

section \<open>Text: trimming, splitting, tokens\<close>

text \<open>
  \<^verbatim>\<open>String.prototype.trim\<close> removes the white space and line terminators of ECMAScript
  from both ends, and nothing inside.
\<close>

definition js_whitespace :: "16 word \<Rightarrow> bool" where
  "js_whitespace c \<longleftrightarrow>
     c = 0x09 \<or> c = 0x0A \<or> c = 0x0B \<or> c = 0x0C \<or> c = 0x0D \<or> c = 0x20 \<or> c = 0xA0 \<or>
     c = 0x1680 \<or> (0x2000 \<le> c \<and> c \<le> 0x200A) \<or> c = 0x2028 \<or> c = 0x2029 \<or>
     c = 0x202F \<or> c = 0x205F \<or> c = 0x3000 \<or> c = 0xFEFF"

definition js_trim :: "jsstring \<Rightarrow> jsstring" where
  "js_trim s = rev (dropWhile js_whitespace (rev (dropWhile js_whitespace s)))"

text \<open>
  \<^verbatim>\<open>str.split(sep)\<close> for a separator of one code unit: the pieces between the
  separators, empty pieces included; the empty string gives one empty piece.
\<close>

fun js_split :: "16 word \<Rightarrow> jsstring \<Rightarrow> jsstring list" where
  "js_split sep [] = [[]]"
| "js_split sep (c # cs) =
     (if c = sep then [] # js_split sep cs
      else (case js_split sep cs of
              [] \<Rightarrow> [[c]]
            | w # ws \<Rightarrow> (c # w) # ws))"

text \<open>\<^verbatim>\<open>tokenize\<close>: \<^verbatim>\<open>text.split(" ").filter(w => w.length > 2)\<close>.\<close>

definition tokenize :: "jsstring \<Rightarrow> jsstring list" where
  "tokenize text = filter (\<lambda>w. length w > 2) (js_split 0x20 text)"

text \<open>\<^verbatim>\<open>startsWith\<close>, and the end-anchored match of a literal.\<close>

definition startsWith :: "jsstring \<Rightarrow> jsstring \<Rightarrow> bool" where
  "startsWith s p = (take (length p) s = p)"

definition endsWith :: "jsstring \<Rightarrow> jsstring \<Rightarrow> bool" where
  "endsWith s p = (length p \<le> length s \<and> drop (length s - length p) s = p)"

text \<open>
  The strings of a regular expression with the \<^verbatim>\<open>i\<close> flag and an ASCII pattern: a code
  unit matches a pattern letter when its upper-case form is the letter's, and ECMAScript
  never folds a code unit beyond ASCII onto an ASCII one.
\<close>

definition ascii_upper :: "16 word \<Rightarrow> 16 word" where
  "ascii_upper c = (if 0x61 \<le> c \<and> c \<le> 0x7A then c - 0x20 else c)"

definition fold_case :: "jsstring \<Rightarrow> jsstring" where
  "fold_case s = map ascii_upper s"

text \<open>
  The code points of a string, as a regular expression with the \<^verbatim>\<open>u\<close> flag reads them:
  a high surrogate followed by a low one is one code point.
\<close>

fun code_points :: "jsstring \<Rightarrow> nat list" where
  "code_points [] = []"
| "code_points [c] = [unat c]"
| "code_points (c # d # cs) =
     (if 0xD800 \<le> c \<and> c \<le> 0xDBFF \<and> 0xDC00 \<le> d \<and> d \<le> 0xDFFF
      then (0x10000 + (unat c - 0xD800) * 0x400 + (unat d - 0xDC00)) # code_points cs
      else unat c # code_points (d # cs))"

text \<open>
  What the JavaScript runtime takes from the Unicode tables, which are no part of the
  program: the general categories Letter and Number of a code point
  (\<^verbatim>\<open>[\p{L}\p{N}]\<close>), \<^verbatim>\<open>toLowerCase\<close>, and the collation of
  \<^verbatim>\<open>localeCompare\<close> with base sensitivity. The program is modelled for any such tables.
\<close>

record platform =
  letter_or_number :: "nat \<Rightarrow> bool"
  toLowerCase :: "jsstring \<Rightarrow> jsstring"
  localeCompare :: "jsstring \<Rightarrow> jsstring \<Rightarrow> int"

text \<open>A small instance of the tables, exact on ASCII, for running the model.\<close>

definition ascii_lower :: "16 word \<Rightarrow> 16 word" where
  "ascii_lower c = (if 0x41 \<le> c \<and> c \<le> 0x5A then c + 0x20 else c)"

definition ascii_letter_or_number :: "nat \<Rightarrow> bool" where
  "ascii_letter_or_number n \<longleftrightarrow>
     (48 \<le> n \<and> n \<le> 57) \<or> (65 \<le> n \<and> n \<le> 90) \<or> (97 \<le> n \<and> n \<le> 122)"

fun ascii_compare :: "jsstring \<Rightarrow> jsstring \<Rightarrow> int" where
  "ascii_compare [] [] = 0"
| "ascii_compare [] (d # ds) = - 1"
| "ascii_compare (c # cs) [] = 1"
| "ascii_compare (c # cs) (d # ds) =
     (if ascii_lower c < ascii_lower d then - 1
      else if ascii_lower d < ascii_lower c then 1
      else ascii_compare cs ds)"

definition ascii_platform :: platform where
  "ascii_platform =
     \<lparr> letter_or_number = ascii_letter_or_number,
       toLowerCase = map ascii_lower,
       localeCompare = ascii_compare \<rparr>"

text \<open>
  \<^verbatim>\<open>Array.prototype.sort(cmp)\<close> is stable: elements that compare equal keep their
  order. For a consistent comparator that fixes the result, which insertion from the
  right computes.
\<close>

fun js_insert :: "('a \<Rightarrow> 'a \<Rightarrow> int) \<Rightarrow> 'a \<Rightarrow> 'a list \<Rightarrow> 'a list" where
  "js_insert cmp x [] = [x]"
| "js_insert cmp x (y # ys) =
     (if cmp x y \<le> 0 then x # y # ys else y # js_insert cmp x ys)"

definition js_sort :: "('a \<Rightarrow> 'a \<Rightarrow> int) \<Rightarrow> 'a list \<Rightarrow> 'a list" where
  "js_sort cmp xs = foldr (js_insert cmp) xs []"

section \<open>Documents, titles and navigation eligibility\<close>

text \<open>
  Of a parsed document the program reads the text of the first \<^verbatim>\<open>title\<close> element and of
  the first \<^verbatim>\<open>h1\<close> element (the empty string when there is none).
\<close>

record document =
  title_text :: jsstring
  h1_text :: jsstring

definition headTitleStrict :: "document \<Rightarrow> jsstring" where
  "headTitleStrict d = js_trim (title_text d)"

definition displayTitle :: "document \<Rightarrow> jsstring \<Rightarrow> jsstring" where
  "displayTitle d fallback =
     (let t = js_trim (title_text d);
          t = (if t = [] then (let h1 = js_trim (h1_text d) in if h1 \<noteq> [] then h1 else fallback)
               else t)
      in if t \<noteq> [] then t else fallback)"

definition isMeaningfulTitle :: "platform \<Rightarrow> jsstring \<Rightarrow> bool" where
  "isMeaningfulTitle P str =
     (let t = js_trim str in length t > 0 \<and> list_ex (letter_or_number P) (code_points t))"

definition NAV_ROOT_PREFIX :: jsstring where
  "NAV_ROOT_PREFIX = js ''en/html/''"

definition isExcludedFromNav :: "jsstring \<Rightarrow> bool" where
  "isExcludedFromNav relPath \<longleftrightarrow>
     startsWith (fold_case relPath) (js ''_COM/'') \<or>
     endsWith (fold_case relPath) (js ''/ESMBLANK.HTML'') \<or>
     fold_case relPath = js ''HONDAESM.HTML''"

definition includeInFlatNav :: "platform \<Rightarrow> jsstring \<Rightarrow> jsstring \<Rightarrow> bool" where
  "includeInFlatNav P relPath strictTitle =
     (let p = toLowerCase P relPath in
        startsWith p NAV_ROOT_PREFIX \<and>
        \<not> (endsWith p (js ''_pr1.html'') \<or> endsWith p (js ''_pr2.html'') \<or>
           endsWith p (js ''_pr1.htm'') \<or> endsWith p (js ''_pr2.htm'')) \<and>
        \<not> isExcludedFromNav relPath \<and>
        isMeaningfulTitle P strictTitle)"

text \<open>\<^verbatim>\<open>path.basename\<close>: the last segment, trailing separators ignored.\<close>

definition basename :: "jsstring \<Rightarrow> jsstring" where
  "basename p = last (js_split 0x2F (rev (dropWhile (\<lambda>c. c = 0x2F) (rev p))))"

section \<open>The second pass: one candidate per eligible page\<close>

record candidate =
  path :: jsstring
  strictTitle :: jsstring
  dispTitle :: jsstring
  textLen :: nat
  simhash :: int

text \<open>
  A page as the second pass sees it: its relative path (the paths of the scan are a
  \<^verbatim>\<open>Set\<close>, no path twice), which of the three branches handles it, the parsed source
  document, the text \<^verbatim>\<open>normalizeTextForCompare\<close> gives for the output document, and
  the text it gives when the written file is read back in the third pass.
\<close>

datatype page_kind = TwoFrames | OtherFrames | NormalPage

record page =
  rel :: jsstring
  kind :: page_kind
  doc :: document
  norm :: jsstring
  written :: jsstring

text \<open>
  The frameset branches read the strict title from the source document. The branch of a
  normal page first writes the display title into the \<^verbatim>\<open>title\<close> element
  (\<^verbatim>\<open>doc$("title").first().text(dispTitle)\<close>) and reads the strict title afterwards.
\<close>

definition page_titles :: "page \<Rightarrow> jsstring \<times> jsstring" where
  "page_titles pg =
     (case kind pg of
        NormalPage \<Rightarrow>
          (let dispT = displayTitle (doc pg) (basename (rel pg));
               doc' = (doc pg)\<lparr>title_text := dispT\<rparr>
           in (dispT, headTitleStrict doc'))
      | _ \<Rightarrow> (displayTitle (doc pg) (basename (rel pg)), headTitleStrict (doc pg)))"

definition page_candidate :: "platform \<Rightarrow> page \<Rightarrow> candidate option" where
  "page_candidate P pg =
     (case page_titles pg of (dispT, strict) \<Rightarrow>
        if includeInFlatNav P (rel pg) strict
        then Some \<lparr> path = rel pg, strictTitle = strict, dispTitle = dispT,
                    textLen = length (norm pg), simhash = simhash64 (tokenize (norm pg)) \<rparr>
        else None)"

definition candidates_of :: "platform \<Rightarrow> page list \<Rightarrow> candidate list" where
  "candidates_of P pages = List.map_filter (page_candidate P) pages"

text \<open>The output tree after the second pass: every page has been written.\<close>

definition written_pages :: "page list \<Rightarrow> (jsstring \<rightharpoonup> jsstring)" where
  "written_pages pages = fold (\<lambda>pg out. out(rel pg \<mapsto> written pg)) pages Map.empty"

section \<open>The third pass: grouping by title and duplicate detection\<close>

definition HAMMING_MAX :: nat where
  "HAMMING_MAX = 3"

definition JACCARD_MIN :: real where
  "JACCARD_MIN = 98 / 100"

text \<open>
  A step of the pass returns, throws (reading a file that is not there; reading
  \<^verbatim>\<open>path\<close> of the undefined first element of an empty array), or never returns (the
  loop of \<open>hamming64\<close>).
\<close>

datatype error = ENOENT jsstring | TypeError

datatype 'a outcome = Returns 'a | Throws error | Hangs

definition readUtf8 :: "(jsstring \<rightharpoonup> jsstring) \<Rightarrow> jsstring \<Rightarrow> jsstring outcome" where
  "readUtf8 out p = (case out p of None \<Rightarrow> Throws (ENOENT p) | Some text \<Rightarrow> Returns text)"

text \<open>\<^verbatim>\<open>byTitle\<close>: a \<^verbatim>\<open>Map\<close> from strict title to the candidates, in insertion order.\<close>

definition byTitle_add :: "candidate \<Rightarrow> (jsstring \<times> candidate list) list \<Rightarrow> (jsstring \<times> candidate list) list" where
  "byTitle_add c m =
     (let m = (if map_of m (strictTitle c) = None then m @ [(strictTitle c, [])] else m)
      in map (\<lambda>(k, arr). if k = strictTitle c then (k, arr @ [c]) else (k, arr)) m)"

definition byTitle :: "candidate list \<Rightarrow> (jsstring \<times> candidate list) list" where
  "byTitle candidates = fold byTitle_add candidates []"

text \<open>The body of the loop over the other members of a group: is \<open>cand\<close> a duplicate?\<close>

definition isDup :: "(jsstring \<rightharpoonup> jsstring) \<Rightarrow> candidate \<Rightarrow> candidate \<Rightarrow> bool outcome" where
  "isDup out canonical cand =
     (case hamming64 (simhash canonical) (simhash cand) of
        None \<Rightarrow> Hangs
      | Some ham \<Rightarrow>
          if ham \<le> HAMMING_MAX then Returns True
          else (case readUtf8 out (path canonical) of
                  Throws e \<Rightarrow> Throws e
                | Hangs \<Rightarrow> Hangs
                | Returns canText \<Rightarrow>
                    (case readUtf8 out (path cand) of
                       Throws e \<Rightarrow> Throws e
                     | Hangs \<Rightarrow> Hangs
                     | Returns cText \<Rightarrow>
                         (let setA = new_Set (tokenize canText);
                              setB = new_Set (tokenize cText);
                              jac = jaccard setA setB
                          in Returns (jac \<ge> JACCARD_MIN)))))"

fun classify :: "(jsstring \<rightharpoonup> jsstring) \<Rightarrow> candidate \<Rightarrow> candidate list \<Rightarrow>
    candidate list \<Rightarrow> candidate list \<Rightarrow> (candidate list \<times> candidate list) outcome" where
  "classify out canonical [] keep dupes = Returns (keep, dupes)"
| "classify out canonical (cand # rest) keep dupes =
     (case isDup out canonical cand of
        Throws e \<Rightarrow> Throws e
      | Hangs \<Rightarrow> Hangs
      | Returns d \<Rightarrow>
          if d then classify out canonical rest keep (dupes @ [cand])
          else classify out canonical rest (keep @ [cand]) dupes)"

record navItem =
  nav_title :: jsstring
  nav_path :: jsstring
  nav_dup :: bool

record reportGroup =
  rep_title :: jsstring
  rep_kept :: "jsstring list"
  rep_duplicates :: "jsstring list"
  rep_reason :: jsstring

text \<open>
  The reason of a report record is the template
  \<^verbatim>\<open>`HAMMING<=${HAMMING_MAX} or JACCARD>=${JACCARD_MIN}`\<close> of the two constants.
\<close>

definition reason_text :: jsstring where
  "reason_text = js ''HAMMING<='' @ js ''3'' @ js '' or JACCARD>='' @ js ''0.98''"

definition sort_by_textLen :: "candidate list \<Rightarrow> candidate list" where
  "sort_by_textLen arr = js_sort (\<lambda>a b. int (textLen b) - int (textLen a)) arr"

definition process_group :: "platform \<Rightarrow> (jsstring \<rightharpoonup> jsstring) \<Rightarrow> jsstring \<times> candidate list \<Rightarrow>
    navItem list \<times> reportGroup list \<Rightarrow> (navItem list \<times> reportGroup list) outcome" where
  "process_group P out g st =
     (case g of (title, arr) \<Rightarrow> case st of (navItems, dedupeReport) \<Rightarrow>
        if length arr = 1 then
          Returns (if isMeaningfulTitle P title
                   then navItems @ [\<lparr> nav_title = title, nav_path = path (hd arr), nav_dup = False \<rparr>]
                   else navItems, dedupeReport)
        else
          (case sort_by_textLen arr of
             [] \<Rightarrow> if isMeaningfulTitle P title then Throws TypeError
                   else Returns (navItems, dedupeReport)
           | canonical # others \<Rightarrow>
               (case classify out canonical others [canonical] [] of
                  Throws e \<Rightarrow> Throws e
                | Hangs \<Rightarrow> Hangs
                | Returns (keep, dupes) \<Rightarrow>
                    (let shown = isMeaningfulTitle P title;
                         navItems = navItems @ (if shown
                           then map (\<lambda>k. \<lparr> nav_title = title, nav_path = path k, nav_dup = False \<rparr>) keep
                           else []);
                         navItems = navItems @ (if shown
                           then map (\<lambda>d. \<lparr> nav_title = title, nav_path = path d, nav_dup = True \<rparr>) dupes
                           else []);
                         dedupeReport = (if dupes \<noteq> []
                           then dedupeReport @ [\<lparr> rep_title = title, rep_kept = map path keep,
                                  rep_duplicates = map path dupes, rep_reason = reason_text \<rparr>]
                           else dedupeReport)
                     in Returns (navItems, dedupeReport)))))"

fun groups_loop :: "platform \<Rightarrow> (jsstring \<rightharpoonup> jsstring) \<Rightarrow> (jsstring \<times> candidate list) list \<Rightarrow>
    navItem list \<times> reportGroup list \<Rightarrow> (navItem list \<times> reportGroup list) outcome" where
  "groups_loop P out [] st = Returns st"
| "groups_loop P out (g # gs) st =
     (case process_group P out g st of
        Throws e \<Rightarrow> Throws e
      | Hangs \<Rightarrow> Hangs
      | Returns st' \<Rightarrow> groups_loop P out gs st')"

text \<open>
  The pass: group, classify, sort the manifest by title, and drop the items whose title
  is not meaningful. It gives the report and the manifest.
\<close>

definition dedupe :: "platform \<Rightarrow> (jsstring \<rightharpoonup> jsstring) \<Rightarrow> candidate list \<Rightarrow>
    (reportGroup list \<times> navItem list) outcome" where
  "dedupe P out candidates =
     (case groups_loop P out (byTitle candidates) ([], []) of
        Throws e \<Rightarrow> Throws e
      | Hangs \<Rightarrow> Hangs
      | Returns (navItems, dedupeReport) \<Rightarrow>
          (let navItems = js_sort (\<lambda>a b. localeCompare P (nav_title a) (nav_title b)) navItems;
               filteredNavItems = filter (\<lambda>it. isMeaningfulTitle P (nav_title it)) navItems
           in Returns (dedupeReport, filteredNavItems)))"

definition main :: "platform \<Rightarrow> page list \<Rightarrow> (reportGroup list \<times> navItem list) outcome" where
  "main P pages = dedupe P (written_pages pages) (candidates_of P pages)"

section \<open>Legacy navigation links\<close>

text \<open>
  The three patterns are matched with \<^verbatim>\<open>String.prototype.match\<close>: the leftmost match
  wins, and \<open>m[1]\<close> is the identifier between the quotes. The pieces of the patterns
  are read off the regular expressions; each has one way to match at a given position,
  so no backtracking is left out.
\<close>

text \<open>A literal under the \<^verbatim>\<open>i\<close> flag, at the start of the input: what follows it.\<close>

definition literal_ci :: "jsstring \<Rightarrow> jsstring \<Rightarrow> jsstring option" where
  "literal_ci p s =
     (if length p \<le> length s \<and> fold_case (take (length p) s) = fold_case p
      then Some (drop (length p) s) else None)"

text \<open>\<^verbatim>\<open>\s*'([^']+)'\<close>: the identifier and what follows the closing quote.\<close>

definition quoted_id :: "jsstring \<Rightarrow> (jsstring \<times> jsstring) option" where
  "quoted_id s =
     (case dropWhile js_whitespace s of
        [] \<Rightarrow> None
      | q # r \<Rightarrow>
          if q = 0x27 then
            (let ident = takeWhile (\<lambda>c. c \<noteq> 0x27) r;
                 r' = dropWhile (\<lambda>c. c \<noteq> 0x27) r
             in if ident \<noteq> [] \<and> r' \<noteq> [] then Some (ident, tl r') else None)
          else None)"

text \<open>\<^verbatim>\<open>\s*\)\<close>.\<close>

definition close_paren :: "jsstring \<Rightarrow> bool" where
  "close_paren s = (case dropWhile js_whitespace s of [] \<Rightarrow> False | c # r \<Rightarrow> c = 0x29)"

text \<open>\<^verbatim>\<open>,\s*'?\d'?\<close>: what follows the page argument.\<close>

definition page_arg :: "jsstring \<Rightarrow> jsstring option" where
  "page_arg s =
     (case s of
        [] \<Rightarrow> None
      | c # r \<Rightarrow>
          if c = 0x2C then
            (let r1 = dropWhile js_whitespace r;
                 r2 = (case r1 of [] \<Rightarrow> r1 | q # t \<Rightarrow> if q = 0x27 then t else r1)
             in case r2 of
                  [] \<Rightarrow> None
                | d # t \<Rightarrow>
                    if 0x30 \<le> d \<and> d \<le> 0x39
                    then Some (case t of [] \<Rightarrow> t | q # t' \<Rightarrow> if q = 0x27 then t' else t)
                    else None)
          else None)"

text \<open>\<^verbatim>\<open>\s*(?:,\s*'?\d'?)?\s*\)\<close>.\<close>

definition prt_tail :: "jsstring \<Rightarrow> bool" where
  "prt_tail s =
     (let r1 = dropWhile js_whitespace s
      in (case page_arg r1 of Some r \<Rightarrow> close_paren r | None \<Rightarrow> False) \<or> close_paren r1)"

definition prt_at :: "jsstring \<Rightarrow> jsstring option" where
  "prt_at s =
     (case literal_ci (js ''parent.Prt('') s of
        None \<Rightarrow> None
      | Some r \<Rightarrow>
          (case quoted_id r of
             None \<Rightarrow> None
           | Some (ident, r') \<Rightarrow> if prt_tail r' then Some ident else None))"

definition cts_at :: "jsstring \<Rightarrow> jsstring option" where
  "cts_at s =
     (case literal_ci (js ''parent.Cts('') s of
        None \<Rightarrow> None
      | Some r \<Rightarrow>
          (case quoted_id r of
             None \<Rightarrow> None
           | Some (ident, r') \<Rightarrow> Some ident))"

definition jmp_at :: "jsstring \<Rightarrow> jsstring option" where
  "jmp_at s =
     (case literal_ci (js ''parent.Jmp('') s of
        None \<Rightarrow> None
      | Some r \<Rightarrow>
          (case quoted_id r of
             None \<Rightarrow> None
           | Some (ident, r') \<Rightarrow> if close_paren r' then Some ident else None))"

text \<open>The leftmost position where the pattern matches.\<close>

fun leftmost :: "(jsstring \<Rightarrow> 'a option) \<Rightarrow> jsstring \<Rightarrow> 'a option" where
  "leftmost pat [] = pat []"
| "leftmost pat (c # cs) = (case pat (c # cs) of Some r \<Rightarrow> Some r | None \<Rightarrow> leftmost pat cs)"

definition match_Prt :: "jsstring \<Rightarrow> jsstring option" where
  "match_Prt href = leftmost prt_at href"

definition match_Cts :: "jsstring \<Rightarrow> jsstring option" where
  "match_Cts href = leftmost cts_at href"

definition match_Jmp :: "jsstring \<Rightarrow> jsstring option" where
  "match_Jmp href = leftmost jmp_at href"

text \<open>\<^verbatim>\<open>candidateTargets\<close>: the generator yields four file names, in this order.\<close>

definition candidateTargets :: "jsstring \<Rightarrow> jsstring list" where
  "candidateTargets ident =
     [ident @ js ''.html'', ident @ js ''_PR.html'', ident @ js ''_PR1.html'', ident @ js ''_PR2.html'']"

text \<open>
  \<^verbatim>\<open>path.posix\<close> of Node.js, which is no part of the program: \<^verbatim>\<open>dirname\<close> (up to the
  last separator before the last segment, \<open>.\<close> when there is none), \<^verbatim>\<open>join\<close> (the
  non-empty arguments with a separator between them, normalized) and \<^verbatim>\<open>normalize\<close>
  (empty and \<open>.\<close> segments dropped, \<open>..\<close> taking back the segment before it). The host
  is a POSIX system: \<^verbatim>\<open>path.sep\<close> is the slash.
\<close>

definition slash :: "16 word" where
  "slash = 0x2F"

fun js_join :: "jsstring \<Rightarrow> jsstring list \<Rightarrow> jsstring" where
  "js_join sep [] = []"
| "js_join sep [x] = x"
| "js_join sep (x # y # ys) = x @ sep @ js_join sep (y # ys)"

definition posix_dirname :: "jsstring \<Rightarrow> jsstring" where
  "posix_dirname p =
     (case p of
        [] \<Rightarrow> js ''.''
      | c # body \<Rightarrow>
          (let hasRoot = (c = slash);
               r = dropWhile (\<lambda>c. c \<noteq> slash) (dropWhile (\<lambda>c. c = slash) (rev body))
           in if r = [] then (if hasRoot then js ''/'' else js ''.'')
              else if hasRoot \<and> length r = 1 then js ''//''
              else take (length r) p))"

definition normalize_step :: "bool \<Rightarrow> jsstring list \<Rightarrow> jsstring \<Rightarrow> jsstring list" where
  "normalize_step allowAboveRoot res seg =
     (if seg = [] \<or> seg = js ''.'' then res
      else if seg = js ''..'' then
        (if res \<noteq> [] \<and> last res \<noteq> js ''..'' then butlast res
         else if allowAboveRoot then res @ [js ''..''] else res)
      else res @ [seg])"

definition posix_normalize :: "jsstring \<Rightarrow> jsstring" where
  "posix_normalize p =
     (if p = [] then js ''.''
      else
        (let isAbsolute = (hd p = slash);
             trailingSeparator = (last p = slash);
             res = js_join [slash] (foldl (normalize_step (\<not> isAbsolute)) [] (js_split slash p))
         in if res = [] then (if isAbsolute then js ''/'' else if trailingSeparator then js ''./'' else js ''.'')
            else (let res = (if trailingSeparator then res @ [slash] else res)
                  in if isAbsolute then slash # res else res)))"

definition posix_join :: "jsstring list \<Rightarrow> jsstring" where
  "posix_join args =
     (let joined = js_join [slash] (filter (\<lambda>a. a \<noteq> []) args)
      in if joined = [] then js ''.'' else posix_normalize joined)"

definition toPosix :: "jsstring \<Rightarrow> jsstring" where
  "toPosix p = js_join (js ''/'') (js_split slash p)"

definition resolveRelative :: "jsstring \<Rightarrow> jsstring \<Rightarrow> jsstring" where
  "resolveRelative fromRel hrefRel =
     (let baseDir = posix_dirname fromRel
      in toPosix (posix_normalize (posix_join [baseDir, hrefRel])))"

text \<open>
  The loop over the candidates: the first whose resolved path is in the set of all
  paths replaces the href, and the loop stops.
\<close>

fun first_present :: "jsstring set \<Rightarrow> jsstring \<Rightarrow> jsstring list \<Rightarrow> jsstring option" where
  "first_present allPaths docRel [] = None"
| "first_present allPaths docRel (cand # cands) =
     (if resolveRelative docRel cand \<in> allPaths then Some cand
      else first_present allPaths docRel cands)"

text \<open>
  The new href of an anchor whose href starts with \<^verbatim>\<open>javascript:parent.\<close>: what the
  callback leaves in the attribute.
\<close>

definition rewrite_href :: "jsstring set \<Rightarrow> jsstring \<Rightarrow> jsstring \<Rightarrow> jsstring" where
  "rewrite_href allPaths docRel href =
     (case (case match_Prt href of
              None \<Rightarrow> None
            | Some ident \<Rightarrow> first_present allPaths docRel (candidateTargets ident)) of
        Some cand \<Rightarrow> cand
      | None \<Rightarrow>
          (case (case match_Cts href of
                   None \<Rightarrow> None
                 | Some ident \<Rightarrow> first_present allPaths docRel (candidateTargets ident)) of
             Some cand \<Rightarrow> cand
           | None \<Rightarrow>
               (case match_Jmp href of
                  Some ident \<Rightarrow> js ''#''
                | None \<Rightarrow> js ''#'')))"

definition rewrite_anchor :: "jsstring set \<Rightarrow> jsstring \<Rightarrow> jsstring \<Rightarrow> jsstring" where
  "rewrite_anchor allPaths docRel href =
     (if startsWith href (js ''javascript:parent.'') then rewrite_href allPaths docRel href else href)"

section \<open>Vocabulary of the properties\<close>

text \<open>The manifest entries and the report records of one title.\<close>

definition entries_for :: "jsstring \<Rightarrow> navItem list \<Rightarrow> navItem list" where
  "entries_for title nav = filter (\<lambda>it. nav_title it = title) nav"

definition records_for :: "jsstring \<Rightarrow> reportGroup list \<Rightarrow> reportGroup list" where
  "records_for title report = filter (\<lambda>r. rep_title r = title) report"

text \<open>
  What the proofs carry through the third pass: a fingerprint is a 64-bit value; a group
  is ready when it is not empty, its title is meaningful, and each member has a
  fingerprint and a written page; the output of a group is the entries of its kept
  members, then of its duplicates, and its report record when there is a duplicate.
\<close>

definition fingerprint_ok :: "candidate \<Rightarrow> bool" where
  "fingerprint_ok c \<longleftrightarrow> 0 \<le> simhash c \<and> simhash c < 2 ^ 64"

definition group_ready :: "platform \<Rightarrow> (jsstring \<rightharpoonup> jsstring) \<Rightarrow> jsstring \<times> candidate list \<Rightarrow> bool" where
  "group_ready P out g \<longleftrightarrow>
     (case g of (title, arr) \<Rightarrow>
        arr \<noteq> [] \<and> isMeaningfulTitle P title \<and>
        list_all (\<lambda>c. fingerprint_ok c \<and> path c \<in> dom out) arr)"

definition group_output :: "jsstring \<times> candidate list \<Rightarrow> navItem list \<times> reportGroup list \<Rightarrow> bool" where
  "group_output g res \<longleftrightarrow>
     (case g of (title, arr) \<Rightarrow> case res of (navs, reps) \<Rightarrow>
        \<exists>keep dupes.
          mset keep + mset dupes = mset arr \<and>
          navs = map (\<lambda>k. \<lparr> nav_title = title, nav_path = path k, nav_dup = False \<rparr>) keep
               @ map (\<lambda>d. \<lparr> nav_title = title, nav_path = path d, nav_dup = True \<rparr>) dupes \<and>
          reps = (if dupes = [] then []
                  else [\<lparr> rep_title = title, rep_kept = map path keep,
                          rep_duplicates = map path dupes, rep_reason = reason_text \<rparr>]))"


text \<open>Some candidate file of the identifier is in the set of all paths.\<close>

definition any_present :: "jsstring set \<Rightarrow> jsstring \<Rightarrow> jsstring \<Rightarrow> bool" where
  "any_present allPaths docRel ident =
     list_ex (\<lambda>cand. resolveRelative docRel cand \<in> allPaths) (candidateTargets ident)"

text \<open>
  The hrefs of the legacy links: \<^verbatim>\<open>javascript:parent.Prt('id')\<close>, with white space
  where the pattern allows it and an optional page argument (a comma, white space, one
  decimal digit, a quote before or after it or both or none), and
  \<^verbatim>\<open>javascript:parent.Cts('id')\<close>.
\<close>

definition quote :: "16 word" where
  "quote = 0x27"

definition digit :: "16 word \<Rightarrow> bool" where
  "digit d \<longleftrightarrow> 0x30 \<le> d \<and> d \<le> 0x39"

definition page_text :: "(jsstring \<times> bool \<times> 16 word \<times> bool) option \<Rightarrow> jsstring" where
  "page_text page =
     (case page of
        None \<Rightarrow> []
      | Some (ws, q1, d, q2) \<Rightarrow>
          [0x2C] @ ws @ (if q1 then [quote] else []) @ [d] @ (if q2 then [quote] else []))"

definition page_wellformed :: "(jsstring \<times> bool \<times> 16 word \<times> bool) option \<Rightarrow> bool" where
  "page_wellformed page =
     (case page of
        None \<Rightarrow> True
      | Some (ws, q1, d, q2) \<Rightarrow> list_all js_whitespace ws \<and> digit d)"

definition prt_href :: "jsstring \<Rightarrow> jsstring \<Rightarrow> jsstring \<Rightarrow>
    (jsstring \<times> bool \<times> 16 word \<times> bool) option \<Rightarrow> jsstring \<Rightarrow> jsstring" where
  "prt_href ws1 ident ws2 page ws3 =
     js ''javascript:parent.Prt('' @ ws1 @ [quote] @ ident @ [quote] @ ws2 @ page_text page @ ws3 @ js '')''"

definition cts_href :: "jsstring \<Rightarrow> jsstring \<Rightarrow> jsstring \<Rightarrow> jsstring" where
  "cts_href ws1 ident ws2 =
     js ''javascript:parent.Cts('' @ ws1 @ [quote] @ ident @ [quote] @ ws2 @ js '')''"

definition wellformed_id :: "jsstring \<Rightarrow> bool" where
  "wellformed_id ident \<longleftrightarrow> ident \<noteq> [] \<and> \<not> list_ex (\<lambda>c. c = quote) ident"

section \<open>Sample pages\<close>

text \<open>
  Normal pages under the navigation root, given by file name, title and normalized text;
  the written page reads back with the same text.
\<close>

definition sample_page :: "string \<Rightarrow> string \<Rightarrow> string \<Rightarrow> page" where
  "sample_page file title text =
     \<lparr> rel = js ''en/html/'' @ js file, kind = NormalPage,
       doc = \<lparr> title_text = js title, h1_text = [] \<rparr>,
       norm = js text, written = js text \<rparr>"

text \<open>Two pages of one title with the same tokens (\<open>of\<close> is too short to be a token).\<close>

definition pages_same_tokens :: "page list" where
  "pages_same_tokens =
     [sample_page ''short.html'' ''Engine Removal'' ''engine removal procedure'',
      sample_page ''long.html'' ''Engine Removal'' ''engine removal procedure of'']"

text \<open>Two pages of one title with the same token set, one token repeated in the longer.\<close>

definition pages_repeated_token :: "page list" where
  "pages_repeated_token =
     [sample_page ''once.html'' ''Engine Removal'' ''engine removal'',
      sample_page ''thrice.html'' ''Engine Removal'' ''engine removal removal removal'']"

text \<open>Three pages of one title, two of them with no text.\<close>

definition pages_two_empty :: "page list" where
  "pages_two_empty =
     [sample_page ''text.html'' ''Engine Removal'' ''engine removal procedure'',
      sample_page ''blank1.html'' ''Engine Removal'' '''',
      sample_page ''blank2.html'' ''Engine Removal'' '''']"

text \<open>
  Two candidates of one title, with normalized texts of 500 and 480 characters and
  fingerprints that differ in 2 bits.
\<close>

definition doc_500 :: candidate where
  "doc_500 = \<lparr> path = js ''en/html/engine-a.html'', strictTitle = js ''Engine Removal Procedure'',
               dispTitle = js ''Engine Removal Procedure'', textLen = 500, simhash = 0 \<rparr>"

definition doc_480 :: candidate where
  "doc_480 = \<lparr> path = js ''en/html/engine-b.html'', strictTitle = js ''Engine Removal Procedure'',
               dispTitle = js ''Engine Removal Procedure'', textLen = 480, simhash = 3 \<rparr>"

section \<open>Title normalization\<close>

text \<open>
  The repository holds a later revision of the build script, with a full-text index,
  which normalizes titles. Its \<^verbatim>\<open>normalizeTitle\<close> (white space collapsed, invisible
  characters stripped), which \<^verbatim>\<open>build.mjs\<close> does not have:
  \<^verbatim>\<open>str.replace(/[\u00A0\u1680\u2000-\u200A\u202F\u205F\u3000]/g, " ")\<close>
  \<^verbatim>\<open>.replace(/[\u200B-\u200D\uFEFF\u2060\u00AD]/g, "").replace(/\s+/g, " ").trim()\<close>.
  It is what "normalized strict title" means.
\<close>

definition unusual_space :: "16 word \<Rightarrow> bool" where
  "unusual_space c \<longleftrightarrow>
     c = 0xA0 \<or> c = 0x1680 \<or> (0x2000 \<le> c \<and> c \<le> 0x200A) \<or> c = 0x202F \<or> c = 0x205F \<or>
     c = 0x3000"

definition invisible :: "16 word \<Rightarrow> bool" where
  "invisible c \<longleftrightarrow> (0x200B \<le> c \<and> c \<le> 0x200D) \<or> c = 0xFEFF \<or> c = 0x2060 \<or> c = 0xAD"

text \<open>\<^verbatim>\<open>replace(/\s+/g, " ")\<close>: every maximal run of white space becomes one space.\<close>

fun collapse_runs :: "bool \<Rightarrow> jsstring \<Rightarrow> jsstring" where
  "collapse_runs in_run [] = []"
| "collapse_runs in_run (c # cs) =
     (if js_whitespace c
      then (if in_run then collapse_runs True cs else 0x20 # collapse_runs True cs)
      else c # collapse_runs False cs)"

definition normalizeTitle :: "jsstring \<Rightarrow> jsstring" where
  "normalizeTitle str =
     js_trim (collapse_runs False
       (filter (\<lambda>c. \<not> invisible c) (map (\<lambda>c. if unusual_space c then 0x20 else c) str)))"

text \<open>
  The title handling of the later revision. \<^verbatim>\<open>headTitleStrict\<close> gives the text of the
  title element as it is; \<^verbatim>\<open>isMeaningfulTitle\<close> normalizes instead of trimming; and
  each of the three branches computes
  \<^verbatim>\<open>strictTitle = normalizeTitle(headTitleStrict($))\<close> from the source document, before
  the display title is written into it.
\<close>

definition headTitleStrict_v2 :: "document \<Rightarrow> jsstring" where
  "headTitleStrict_v2 d = title_text d"

definition isMeaningfulTitle_v2 :: "platform \<Rightarrow> jsstring \<Rightarrow> bool" where
  "isMeaningfulTitle_v2 P str =
     (let t = normalizeTitle str in length t > 0 \<and> list_ex (letter_or_number P) (code_points t))"

definition displayTitle_v2 :: "document \<Rightarrow> jsstring \<Rightarrow> jsstring" where
  "displayTitle_v2 d fallback =
     (let raw = js_trim (title_text d) in
        if raw \<noteq> [] then raw
        else (let h1 = js_trim (h1_text d) in if h1 \<noteq> [] then h1 else fallback))"

definition includeInFlatNav_v2 :: "platform \<Rightarrow> jsstring \<Rightarrow> jsstring \<Rightarrow> bool" where
  "includeInFlatNav_v2 P relPath title =
     (let p = toLowerCase P relPath in
        startsWith p NAV_ROOT_PREFIX \<and>
        \<not> (endsWith p (js ''_pr1.html'') \<or> endsWith p (js ''_pr2.html'') \<or>
           endsWith p (js ''_pr1.htm'') \<or> endsWith p (js ''_pr2.htm'')) \<and>
        \<not> isExcludedFromNav relPath \<and>
        isMeaningfulTitle_v2 P title)"

definition page_candidate_v2 :: "platform \<Rightarrow> page \<Rightarrow> candidate option" where
  "page_candidate_v2 P pg =
     (let strict = normalizeTitle (headTitleStrict_v2 (doc pg));
          dispT = displayTitle_v2 (doc pg) (basename (rel pg))
      in if includeInFlatNav_v2 P (rel pg) strict
         then Some \<lparr> path = rel pg, strictTitle = strict, dispTitle = dispT,
                     textLen = length (norm pg), simhash = simhash64 (tokenize (norm pg)) \<rparr>
         else None)"

definition candidates_of_v2 :: "platform \<Rightarrow> page list \<Rightarrow> candidate list" where
  "candidates_of_v2 P pages = List.map_filter (page_candidate_v2 P) pages"

text \<open>Two frameset pages whose titles differ in the white space between the words.\<close>

definition pages_spaced_titles :: "page list" where
  "pages_spaced_titles =
     [\<lparr> rel = js ''en/html/wide.html'', kind = TwoFrames,
         doc = \<lparr> title_text = js ''Engine  Removal'', h1_text = [] \<rparr>,
         norm = js ''engine removal procedure'', written = js ''engine removal procedure'' \<rparr>,
      \<lparr> rel = js ''en/html/narrow.html'', kind = TwoFrames,
         doc = \<lparr> title_text = js '' Engine Removal '', h1_text = [] \<rparr>,
         norm = js ''engine removal procedure'', written = js ''engine removal procedure'' \<rparr>]"

text \<open>A normal page with a blank title and a heading.\<close>

definition pages_blank_title :: "page list" where
  "pages_blank_title =
     [\<lparr> rel = js ''en/html/cover.html'', kind = NormalPage,
         doc = \<lparr> title_text = js ''  '', h1_text = js ''Overview'' \<rparr>,
         norm = js ''overview of the manual'', written = js ''overview of the manual'' \<rparr>]"
section \<open>Properties of the fingerprint\<close>

lemma mask64: "(0xFFFFFFFFFFFFFFFF :: int) = mask 64"
  by (simp add: mask_eq_exp_minus_1)

lemma fnv1a64_step_range: "0 \<le> fnv1a64_step h c \<and> fnv1a64_step h c < 2 ^ 64"
  unfolding fnv1a64_step_def mask64
  using take_bit_int_less_exp[of 64 "(h XOR uint c) * fnv_prime"]
  by (simp flip: take_bit_eq_mask)

lemma fnv1a64_range: "0 \<le> fnv1a64 s \<and> fnv1a64 s < 2 ^ 64"
proof (cases s rule: rev_cases)
  case Nil
  then show ?thesis by (simp add: fnv1a64_def fnv_offset_basis_def)
next
  case (snoc ys y)
  then show ?thesis using fnv1a64_step_range by (simp add: fnv1a64_def)
qed

lemma simhash_vote_bit: "simhash_vote h i = (if bit h i then 1 else - 1)"
  by (simp add: simhash_vote_def bit_iff_odd_drop_bit and_one_eq mod_2_eq_odd)

lemma fold_update_upt:
  "n \<le> length v \<Longrightarrow>
   length (fold (\<lambda>i v. v[i := v ! i + d i]) [0..<n] v) = length v \<and>
   (\<forall>i < length v. fold (\<lambda>i v. v[i := v ! i + d i]) [0..<n] v ! i
        = (if i < n then v ! i + d i else v ! i))"
  by (induction n) (auto simp: nth_list_update)

lemma simhash_add_length: "length v = 64 \<Longrightarrow> length (simhash_add h v) = 64"
  unfolding simhash_add_def simhash_bits_def
  using fold_update_upt[of 64 v "simhash_vote h"] by (simp del: upt_rec_numeral)

lemma simhash_add_nth:
  "length v = 64 \<Longrightarrow> i < 64 \<Longrightarrow> simhash_add h v ! i = v ! i + simhash_vote h i"
  unfolding simhash_add_def simhash_bits_def
  using fold_update_upt[of 64 v "simhash_vote h"] by (simp del: upt_rec_numeral)

lemma fold_simhash_add:
  "length v = 64 \<Longrightarrow>
   length (fold (\<lambda>t v. simhash_add (fnv1a64 t) v) ts v) = 64 \<and>
   (\<forall>i < 64. fold (\<lambda>t v. simhash_add (fnv1a64 t) v) ts v ! i
        = v ! i + (\<Sum>t\<leftarrow>ts. simhash_vote (fnv1a64 t) i))"
proof (induction ts arbitrary: v)
  case Nil
  then show ?case by simp
next
  case (Cons t ts)
  have len: "length (simhash_add (fnv1a64 t) v) = 64"
    using Cons.prems by (rule simhash_add_length)
  show ?case using Cons.IH[OF len] Cons.prems by (simp add: simhash_add_nth)
qed

lemma simhash_acc_nth:
  "i < 64 \<Longrightarrow> simhash_acc ts ! i = spec_accumulator ts i"
  using fold_simhash_add[of "replicate 64 0" ts]
  by (simp add: simhash_acc_def spec_accumulator_def simhash_bits_def simhash_vote_bit)

lemma fold_or_bit:
  "bit (fold (\<lambda>i sig. if P i then sig OR push_bit i 1 else sig) [0..<n] (s::int)) k
     \<longleftrightarrow> bit s k \<or> (k < n \<and> P k)"
proof (induction n)
  case 0
  show ?case by simp
next
  case (Suc n)
  have "bit (push_bit n (1::int)) k \<longleftrightarrow> k = n"
    by (auto simp: bit_exp_iff)
  with Suc show ?case
    by (auto simp del: push_bit_of_1 simp: bit_or_iff less_Suc_eq)
qed

lemma simhash_sig_bit: "bit (simhash_sig v) k \<longleftrightarrow> k < 64 \<and> 0 < v ! k"
  unfolding simhash_sig_def simhash_bits_def by (simp only: fold_or_bit) simp

lemma simhash64_bit: "bit (simhash64 ts) i \<longleftrightarrow> i < 64 \<and> 0 < spec_accumulator ts i"
  by (auto simp: simhash64_def simhash_sig_bit simhash_acc_nth)

lemma int_range_of_bits:
  assumes "\<And>k. bit (x::int) k \<Longrightarrow> k < n"
  shows "0 \<le> x \<and> x < 2 ^ n"
proof -
  have "take_bit n x = x"
    by (rule bit_eqI) (use assms in \<open>auto simp: bit_take_bit_iff\<close>)
  then show ?thesis
    by (metis take_bit_nonnegative take_bit_int_less_exp)
qed

lemma simhash64_range: "0 \<le> simhash64 ts \<and> simhash64 ts < 2 ^ 64"
  by (rule int_range_of_bits) (simp add: simhash64_bit)

lemma sum_list_map_mset:
  fixes f :: "'a \<Rightarrow> int"
  assumes "mset xs = mset ys"
  shows "sum_list (map f xs) = sum_list (map f ys)"
proof -
  have "mset (map f xs) = mset (map f ys)"
    using assms by simp
  then have "sum_mset (mset (map f xs)) = sum_mset (mset (map f ys))"
    by (rule arg_cong)
  then show ?thesis
    by (simp only: sum_mset_sum_list)
qed

lemma accumulator_mset: "mset ts = mset us \<Longrightarrow> spec_accumulator ts i = spec_accumulator us i"
  unfolding spec_accumulator_def by (rule sum_list_map_mset)

lemma bits_double: "{n. bit (2 * x :: int) n} = Suc ` {n. bit x n}"
proof (rule set_eqI)
  fix n show "n \<in> {n. bit (2 * x) n} \<longleftrightarrow> n \<in> Suc ` {n. bit x n}"
    by (cases n) (auto simp: bit_double_iff image_iff)
qed

lemma bits_double_Suc: "{n. bit (2 * x + 1 :: int) n} = insert 0 (Suc ` {n. bit x n})"
proof (rule set_eqI)
  fix n show "n \<in> {n. bit (2 * x + 1) n} \<longleftrightarrow> n \<in> insert 0 (Suc ` {n. bit x n})"
    by (cases n) (auto simp: bit_Suc bit_0 image_iff)
qed

lemma finite_bits: "0 \<le> (x::int) \<Longrightarrow> finite {n. bit x n}"
proof -
  assume "0 \<le> x"
  have "x < 2 ^ nat x" by (metis \<open>0 \<le> x\<close> less_exp nat_0_le of_nat_less_iff of_nat_numeral of_nat_power)
  then have "take_bit (nat x) x = x" using \<open>0 \<le> x\<close> by (simp add: take_bit_int_eq_self)
  then have "{n. bit x n} \<subseteq> {..<nat x}"
    by (metis (mono_tags, lifting) bit_take_bit_iff lessThan_iff mem_Collect_eq subsetI)
  then show ?thesis by (rule finite_subset) simp
qed

lemma and_pred_even: "(2 * y :: int) AND (2 * y - 1) = 2 * (y AND (y - 1))"
proof (rule bit_eqI)
  fix n
  have d: "(2 * y - 1) div 2 = y - 1" by simp
  show "bit (2 * y AND (2 * y - 1)) n \<longleftrightarrow> bit (2 * (y AND (y - 1))) n"
    unfolding bit_and_iff
    by (cases n) (simp_all add: bit_Suc bit_0 d bit_and_iff)
qed

lemma and_pred_odd: "(2 * y + 1 :: int) AND (2 * y + 1 - 1) = 2 * y"
proof (rule bit_eqI)
  fix n
  show "bit ((2 * y + 1) AND (2 * y + 1 - 1)) n \<longleftrightarrow> bit (2 * y) n"
    unfolding bit_and_iff
    by (cases n) (simp_all add: bit_Suc bit_0)
qed

lemma clear_lowest_card:
  "0 < (x::int) \<Longrightarrow> Suc (card {n. bit (x AND (x - 1)) n}) = card {n. bit x n}"
proof (induction "nat x" arbitrary: x rule: less_induct)
  case less
  show ?case
  proof (cases "even x")
    case True
    then obtain y where y: "x = 2 * y" by (elim evenE)
    with less.prems have ypos: "0 < y" by simp
    then have "nat y < nat x" using y by simp
    then have IH: "Suc (card {n. bit (y AND (y - 1)) n}) = card {n. bit y n}"
      using less.hyps ypos by blast
    have "card {n. bit (x AND (x - 1)) n} = card {n. bit (y AND (y - 1)) n}"
      unfolding y and_pred_even bits_double by (simp add: card_image)
    moreover have "card {n. bit x n} = card {n. bit y n}"
      unfolding y bits_double by (simp add: card_image)
    ultimately show ?thesis using IH by simp
  next
    case False
    then obtain y where y: "x = 2 * y + 1" by (elim oddE)
    with less.prems have ynn: "0 \<le> y" by simp
    have fin: "finite (Suc ` {n. bit y n})"
      using finite_bits[OF ynn] by simp
    have "card {n. bit x n} = Suc (card (Suc ` {n. bit y n}))"
      unfolding y bits_double_Suc using fin by (simp add: card_insert_if image_iff)
    moreover have "card {n. bit (x AND (x - 1)) n} = card (Suc ` {n. bit y n})"
      unfolding y and_pred_odd bits_double by simp
    ultimately show ?thesis by simp
  qed
qed

lemma clear_lowest_bounds:
  "0 < (x::int) \<Longrightarrow> 0 \<le> x AND (x - 1) \<and> x AND (x - 1) < x"
  using AND_upper2[of "x - 1" x] by simp

lemma hamming64_loop_popcount:
  "0 \<le> x \<Longrightarrow> hamming64_loop x c = Some (c + card {n. bit x n})"
proof (induction "nat x" arbitrary: x c rule: less_induct)
  case less
  show ?case
  proof (cases "x = 0")
    case True
    with True show ?thesis by (subst hamming64_loop.simps) (simp add: bot_fun_def)
  next
    case False
    with less.prems have pos: "0 < x" by simp
    let ?y = "x AND (x - 1)"
    have b: "0 \<le> ?y" "?y < x" using clear_lowest_bounds[OF pos] by simp_all
    then have "nat ?y < nat x" using pos by simp
    then have "hamming64_loop ?y (c + 1) = Some (c + 1 + card {n. bit ?y n})"
      using less.hyps b(1) by blast
    then show ?thesis
      using False clear_lowest_card[OF pos]
      by (subst hamming64_loop.simps) simp
  qed
qed

lemma bits_xor_diff: "{n. bit (a XOR b :: int) n} = {n. bit a n \<noteq> bit b n}"
  by (auto simp: bit_xor_iff)

lemma xor_range:
  assumes "0 \<le> (a::int)" "a < 2 ^ m" "0 \<le> b" "b < 2 ^ m"
  shows "0 \<le> a XOR b" "{n. bit (a XOR b) n} \<subseteq> {..<m}"
proof -
  show "0 \<le> a XOR b" using assms by simp
  have "take_bit m a = a" "take_bit m b = b"
    using assms by (simp_all add: take_bit_int_eq_self)
  then have "take_bit m (a XOR b) = a XOR b" by simp
  then show "{n. bit (a XOR b) n} \<subseteq> {..<m}"
    by (metis (mono_tags, lifting) bit_take_bit_iff lessThan_iff mem_Collect_eq subsetI)
qed

lemma hamming64_spec:
  assumes "0 \<le> a" "a < 2 ^ 64" "0 \<le> b" "b < 2 ^ 64"
  shows "hamming64 a b = Some (card {n. bit a n \<noteq> bit b n})"
    and "card {n. bit a n \<noteq> bit b n} \<le> 64"
    and "card {n. bit a n \<noteq> bit b n} = 0 \<longleftrightarrow> a = b"
proof -
  note xr = xor_range[OF assms]
  show "hamming64 a b = Some (card {n. bit a n \<noteq> bit b n})"
    unfolding hamming64_def using hamming64_loop_popcount[OF xr(1), of 0]
    by (simp add: bits_xor_diff)
  have "card {n. bit (a XOR b) n} \<le> card {..<64::nat}"
    by (rule card_mono) (use xr(2) in simp_all)
  then show "card {n. bit a n \<noteq> bit b n} \<le> 64"
    by (simp add: bits_xor_diff)
  have fin: "finite {n. bit a n \<noteq> bit b n}"
    using finite_bits[OF xr(1)] by (simp add: bits_xor_diff)
  have "card {n. bit a n \<noteq> bit b n} = 0 \<longleftrightarrow> {n. bit a n \<noteq> bit b n} = {}"
    using fin by (rule card_0_eq)
  also have "\<dots> \<longleftrightarrow> (\<forall>n. bit a n = bit b n)"
    by auto
  also have "\<dots> \<longleftrightarrow> a = b"
    by (auto intro: bit_eqI)
  finally show "card {n. bit a n \<noteq> bit b n} = 0 \<longleftrightarrow> a = b" .
qed

subsection \<open>The fingerprint, bit by bit\<close>

text \<open>
  C1. For every token sequence, bit \<open>i\<close> of the fingerprint computed by \<open>simhash64\<close> is 1
  if and only if \<open>i\<close> is one of the 64 bit positions and the signed accumulator of that
  position (plus one for each token whose 64-bit hash has bit \<open>i\<close> set, minus one
  otherwise, over the whole sequence with its repetitions) is strictly greater than 0. An
  accumulator of exactly 0 therefore gives bit 0. The fingerprint is a function of the
  token sequence alone, so equal sequences give equal fingerprints.
\<close>

theorem simhash64_bit_iff_accumulator:
  "bit (simhash64 tokens) i \<longleftrightarrow> i < 64 \<and> 0 < spec_accumulator tokens i"
proof -
  have "bit (simhash64 tokens) i \<longleftrightarrow> i < 64 \<and> 0 < simhash_acc tokens ! i"
    unfolding simhash64_def by (rule simhash_sig_bit)
  also have "\<dots> \<longleftrightarrow> i < 64 \<and> 0 < spec_accumulator tokens i"
    using simhash_acc_nth[of i tokens] by auto
  finally show ?thesis .
qed

text \<open>
  C6. For every token list and every permutation of it, \<open>simhash64\<close> returns the same
  fingerprint: it depends on the multiset of tokens only (the order does not matter, the
  repetitions do).
\<close>

theorem simhash64_permutation_invariant:
  assumes "mset tokens = mset tokens'"
  shows "simhash64 tokens = simhash64 tokens'"
proof (rule bit_eqI)
  fix i
  have "spec_accumulator tokens i = spec_accumulator tokens' i"
    using assms by (rule accumulator_mset)
  then show "bit (simhash64 tokens) i \<longleftrightarrow> bit (simhash64 tokens') i"
    by (simp add: simhash64_bit)
qed

theorem simhash64_permutation_invariant_witness:
  "mset [js ''engine'', js ''removal'', js ''engine''] = mset [js ''removal'', js ''engine'', js ''engine'']
   \<and> simhash64 [js ''engine'', js ''removal'', js ''engine'']
     = simhash64 [js ''removal'', js ''engine'', js ''engine'']"
proof -
  have p: "mset [js ''engine'', js ''removal'', js ''engine'']
         = mset [js ''removal'', js ''engine'', js ''engine'']"
    by simp
  from p simhash64_permutation_invariant [OF p] show ?thesis
    by (rule conjI)
qed

text \<open>
  The repetitions count: a token list and the same tokens with one of them repeated have
  different fingerprints.
\<close>

lemma simhash64_counts_repetitions:
  "simhash64 [js ''engine'', js ''removal'']
     \<noteq> simhash64 [js ''engine'', js ''removal'', js ''removal'', js ''removal'']"
  by code_simp

text \<open>
  C9. \<open>fnv1a64\<close> returns an integer in \<open>[0, 2^64)\<close> for every string, and \<open>simhash64\<close>
  returns an integer in \<open>[0, 2^64)\<close> for every token list. On any two integers of that
  range \<open>hamming64\<close> returns (its loop ends), the count is the number of bit positions
  where the two differ, it lies between 0 and 64, it is 0 exactly when the two are equal,
  and swapping the arguments gives the same count.
\<close>

theorem fingerprint_ranges_and_hamming64:
  "(0 \<le> fnv1a64 str \<and> fnv1a64 str < 2 ^ 64) \<and>
   (0 \<le> simhash64 tokens \<and> simhash64 tokens < 2 ^ 64) \<and>
   (0 \<le> a \<and> a < 2 ^ 64 \<and> 0 \<le> b \<and> b < 2 ^ 64 \<longrightarrow>
     (\<exists>n. hamming64 a b = Some n \<and> n = card {i. bit a i \<noteq> bit b i} \<and> n \<le> 64
          \<and> (n = 0 \<longleftrightarrow> a = b) \<and> hamming64 b a = Some n))"
proof (intro conjI impI)
  show "0 \<le> fnv1a64 str" and "fnv1a64 str < 2 ^ 64"
    using fnv1a64_range[of str] by simp_all
  show "0 \<le> simhash64 tokens" and "simhash64 tokens < 2 ^ 64"
    using simhash64_range[of tokens] by simp_all
next
  assume r: "0 \<le> a \<and> a < 2 ^ 64 \<and> 0 \<le> b \<and> b < 2 ^ 64"
  then have ab: "0 \<le> a" "a < 2 ^ 64" "0 \<le> b" "b < 2 ^ 64"
    by simp_all
  let ?n = "card {i. bit a i \<noteq> bit b i}"
  have sym: "{i. bit b i \<noteq> bit a i} = {i. bit a i \<noteq> bit b i}"
    by auto
  have "hamming64 b a = Some (card {i. bit b i \<noteq> bit a i})"
    by (rule hamming64_spec(1)[OF ab(3,4,1,2)])
  moreover have "Some (card {i. bit b i \<noteq> bit a i}) = Some ?n"
    by (rule arg_cong[where f = "\<lambda>S. Some (card S)", OF sym])
  ultimately have ba: "hamming64 b a = Some ?n"
    by (rule trans)
  have "hamming64 a b = Some ?n \<and> ?n = ?n \<and> ?n \<le> 64 \<and> (?n = 0 \<longleftrightarrow> a = b)
        \<and> hamming64 b a = Some ?n"
    using hamming64_spec(1)[OF ab] hamming64_spec(2)[OF ab] hamming64_spec(3)[OF ab] ba
    by (intro conjI) (rule refl | assumption)+
  then show
    "\<exists>n. hamming64 a b = Some n \<and> n = card {i. bit a i \<noteq> bit b i} \<and> n \<le> 64
        \<and> (n = 0 \<longleftrightarrow> a = b) \<and> hamming64 b a = Some n"
    by (rule exI)
qed

theorem fingerprint_ranges_and_hamming64_witness:
  "(0 \<le> fnv1a64 (js ''abc'') \<and> fnv1a64 (js ''abc'') < 2 ^ 64) \<and>
   (0 \<le> simhash64 [js ''abc''] \<and> simhash64 [js ''abc''] < 2 ^ 64) \<and>
   ((0::int) \<le> 5 \<and> (5::int) < 2 ^ 64 \<and> (0::int) \<le> 3 \<and> (3::int) < 2 ^ 64) \<and>
   (\<exists>n. hamming64 5 3 = Some n \<and> n = card {i. bit (5::int) i \<noteq> bit (3::int) i} \<and> n \<le> 64
        \<and> (n = 0 \<longleftrightarrow> (5::int) = 3) \<and> hamming64 3 5 = Some n)"
proof -
  have r: "(0::int) \<le> 5 \<and> (5::int) < 2 ^ 64 \<and> (0::int) \<le> 3 \<and> (3::int) < 2 ^ 64"
    by simp
  from r fingerprint_ranges_and_hamming64 [of "js ''abc''" "[js ''abc'']" 5 3]
  show ?thesis
    by blast
qed

section \<open>Properties of the Jaccard similarity\<close>

lemma set_add_set: "set (set_add s x) = insert x (set s)"
  by (auto simp: set_add_def set_has_def)

lemma set_add_distinct: "distinct s \<Longrightarrow> distinct (set_add s x)"
  by (simp add: set_add_def set_has_def)

lemma fold_set_add:
  "distinct s \<Longrightarrow>
   distinct (fold (\<lambda>x s. set_add s x) xs s) \<and> set (fold (\<lambda>x s. set_add s x) xs s) = set s \<union> set xs"
proof (induction xs arbitrary: s)
  case Nil
  then show ?case by simp
next
  case (Cons x xs)
  from Cons.IH[OF set_add_distinct[OF Cons.prems, of x]] show ?case
    by (simp add: set_add_set)
qed

lemma new_Set_distinct: "distinct (new_Set xs)"
  using fold_set_add[of "[]" xs] by (simp add: new_Set_def)

lemma new_Set_set: "set (new_Set xs) = set xs"
  using fold_set_add[of "[]" xs] by (simp add: new_Set_def)

lemma jaccard_loop_spec:
  "distinct xs \<Longrightarrow> distinct seen \<Longrightarrow>
   jaccard_loop xs icount seen = (icount', seen') \<Longrightarrow>
   icount' = icount + card (set xs \<inter> set seen) \<and> distinct seen' \<and> set seen' = set seen \<union> set xs"
proof (induction xs arbitrary: icount seen)
  case Nil
  then show ?case by simp
next
  case (Cons x xs)
  let ?inter1 = "if set_has seen x then icount + 1 else icount"
  have run: "jaccard_loop xs ?inter1 (set_add seen x) = (icount', seen')"
    using Cons.prems(3) by simp
  have dx: "distinct xs" and nx: "x \<notin> set xs"
    using Cons.prems(1) by simp_all
  note IH = Cons.IH[OF dx set_add_distinct[OF Cons.prems(2)] run]
  have a: "set xs \<inter> set (set_add seen x) = set xs \<inter> set seen"
    using nx by (auto simp: set_add_set)
  have b: "card (set (x # xs) \<inter> set seen)
         = (if x \<in> set seen then 1 else 0) + card (set xs \<inter> set seen)"
  proof (cases "x \<in> set seen")
    case True
    then have "set (x # xs) \<inter> set seen = insert x (set xs \<inter> set seen)"
      by auto
    with True nx show ?thesis by simp
  next
    case False
    then have "set (x # xs) \<inter> set seen = set xs \<inter> set seen"
      by auto
    with False show ?thesis by simp
  qed
  from IH a b show ?case
    by (auto simp: set_has_def set_add_set)
qed

lemma jaccard_sets:
  assumes "distinct bSet"
  shows "jaccard aSet bSet =
     (if set aSet \<union> set bSet = {} then 1
      else real (card (set aSet \<inter> set bSet)) / real (card (set aSet \<union> set bSet)))"
proof -
  obtain icount seen where run: "jaccard_loop bSet 0 (new_Set aSet) = (icount, seen)"
    by (cases "jaccard_loop bSet 0 (new_Set aSet)")
  from jaccard_loop_spec[OF assms new_Set_distinct run]
  have i: "icount = card (set bSet \<inter> set aSet)" and d: "distinct seen"
    and s: "set seen = set aSet \<union> set bSet"
    by (simp_all add: new_Set_set)
  have len: "length seen = card (set aSet \<union> set bSet)"
    using d s by (metis distinct_card)
  have z: "length seen = 0 \<longleftrightarrow> set aSet \<union> set bSet = {}"
    using s by auto
  show ?thesis
  proof (cases "set aSet \<union> set bSet = {}")
    case True
    then have "seen = []" using s by simp
    with True show ?thesis
      unfolding jaccard_def run by simp
  next
    case False
    then have "seen \<noteq> []" using s by auto
    moreover have "real icount / real (length seen)
        = real (card (set aSet \<inter> set bSet)) / real (card (set aSet \<union> set bSet))"
      unfolding i len by (simp only: Int_commute)
    ultimately show ?thesis
      unfolding jaccard_def run using False by simp
  qed
qed

text \<open>
  C5. For all token sets \<open>A\<close> and \<open>B\<close> (JavaScript \<^verbatim>\<open>Set\<close>s: no element twice),
  \<open>jaccard A B\<close> is the size of the intersection divided by the size of the union; when
  the union is empty, so both sets are, it is 1; and \<open>jaccard A A = 1\<close> for every \<open>A\<close>.
\<close>

theorem jaccard_intersection_over_union:
  assumes "distinct aSet" and "distinct bSet"
  shows "jaccard aSet bSet =
           (if set aSet \<union> set bSet = {} then 1
            else real (card (set aSet \<inter> set bSet)) / real (card (set aSet \<union> set bSet)))
         \<and> jaccard ([] :: 'a list) [] = 1
         \<and> jaccard aSet aSet = 1"
proof (intro conjI)
  show "jaccard aSet bSet =
           (if set aSet \<union> set bSet = {} then 1
            else real (card (set aSet \<inter> set bSet)) / real (card (set aSet \<union> set bSet)))"
    using assms(2) by (rule jaccard_sets)
  show "jaccard ([] :: 'a list) [] = 1"
    by (simp add: jaccard_def new_Set_def)
  show "jaccard aSet aSet = 1"
  proof (cases "aSet = []")
    case True
    then show ?thesis by (simp add: jaccard_def new_Set_def)
  next
    case False
    then have "card (set aSet) \<noteq> 0" by simp
    then show ?thesis
      using jaccard_sets[OF assms(1), of aSet] False by simp
  qed
qed

theorem jaccard_intersection_over_union_witness:
  "distinct [js ''engine'', js ''removal''] \<and> distinct [js ''removal'', js ''procedure''] \<and>
   jaccard [js ''engine'', js ''removal''] [js ''removal'', js ''procedure''] = 1 / 3 \<and>
   jaccard ([] :: jsstring list) [] = 1 \<and>
   jaccard [js ''engine'', js ''removal''] [js ''engine'', js ''removal''] = 1"
proof -
  have ne: "js ''engine'' \<noteq> js ''removal''" "js ''removal'' \<noteq> js ''procedure''"
    "js ''engine'' \<noteq> js ''procedure''"
    by (simp_all add: js_def)
  have d: "distinct [js ''engine'', js ''removal'']" "distinct [js ''removal'', js ''procedure'']"
    using ne by simp_all
  have u: "set [js ''engine'', js ''removal''] \<union> set [js ''removal'', js ''procedure'']
           = {js ''engine'', js ''removal'', js ''procedure''}"
    by auto
  have i: "set [js ''engine'', js ''removal''] \<inter> set [js ''removal'', js ''procedure'']
           = {js ''removal''}"
    using ne by auto
  have c: "card {js ''engine'', js ''removal'', js ''procedure''} = 3"
    using ne by simp
  from jaccard_intersection_over_union [OF d] d show ?thesis
    unfolding u i c by simp
qed

section \<open>Properties of the stable sort\<close>

lemma js_insert_mset: "mset (js_insert cmp x ys) = add_mset x (mset ys)"
  by (induction ys) simp_all

lemma js_sort_mset: "mset (js_sort cmp xs) = mset xs"
  unfolding js_sort_def by (induction xs) (simp_all add: js_insert_mset)

lemma js_sort_set: "set (js_sort cmp xs) = set xs"
  using js_sort_mset[of cmp xs] by (metis set_mset_mset)

lemma js_sort_length: "length (js_sort cmp xs) = length xs"
  using js_sort_mset[of cmp xs] by (metis size_mset)

text \<open>Sorting by a key, largest first: the comparator \<open>key b - key a\<close>.\<close>

lemma js_insert_desc_set:
  "set (js_insert cmp x ys) = insert x (set ys)"
  by (induction ys) auto

lemma js_insert_desc_sorted:
  fixes key :: "'a \<Rightarrow> nat"
  assumes "sorted_wrt (\<lambda>a b. key b \<le> key a) ys"
  shows "sorted_wrt (\<lambda>a b. key b \<le> key a) (js_insert (\<lambda>a b. int (key b) - int (key a)) x ys)"
  using assms
proof (induction ys)
  case Nil
  then show ?case by simp
next
  case (Cons y ys)
  show ?case
  proof (cases "key y \<le> key x")
    case True
    with Cons.prems show ?thesis by auto
  next
    case False
    with Cons show ?thesis by (auto simp: js_insert_desc_set)
  qed
qed

lemma js_sort_desc_sorted:
  fixes key :: "'a \<Rightarrow> nat"
  shows "sorted_wrt (\<lambda>a b. key b \<le> key a) (js_sort (\<lambda>a b. int (key b) - int (key a)) xs)"
  unfolding js_sort_def by (induction xs) (simp_all add: js_insert_desc_sorted)

lemma js_insert_desc_stable:
  fixes key :: "'a \<Rightarrow> nat"
  assumes "sorted_wrt (\<lambda>a b. key b \<le> key a) ys"
  shows "filter (\<lambda>c. key c = k) (js_insert (\<lambda>a b. int (key b) - int (key a)) x ys)
       = filter (\<lambda>c. key c = k) (x # ys)"
  using assms
proof (induction ys)
  case Nil
  then show ?case by simp
next
  case (Cons y ys)
  show ?case
  proof (cases "key y \<le> key x")
    case True
    then show ?thesis by simp
  next
    case False
    then have lt: "key x < key y" by simp
    have IH: "filter (\<lambda>c. key c = k) (js_insert (\<lambda>a b. int (key b) - int (key a)) x ys)
       = filter (\<lambda>c. key c = k) (x # ys)"
      using Cons by simp
    from lt False IH show ?thesis by auto
  qed
qed

lemma js_sort_desc_stable:
  fixes key :: "'a \<Rightarrow> nat"
  shows "filter (\<lambda>c. key c = k) (js_sort (\<lambda>a b. int (key b) - int (key a)) xs)
       = filter (\<lambda>c. key c = k) xs"
proof (induction xs)
  case Nil
  show ?case by (simp add: js_sort_def)
next
  case (Cons x xs)
  have "filter (\<lambda>c. key c = k) (js_sort (\<lambda>a b. int (key b) - int (key a)) (x # xs))
      = filter (\<lambda>c. key c = k) (x # js_sort (\<lambda>a b. int (key b) - int (key a)) xs)"
    using js_insert_desc_stable[OF js_sort_desc_sorted, of key k x xs]
    by (simp add: js_sort_def)
  with Cons show ?case by simp
qed

lemma sort_by_textLen_mset: "mset (sort_by_textLen arr) = mset arr"
  unfolding sort_by_textLen_def by (rule js_sort_mset)

lemma sort_by_textLen_sorted:
  "sorted_wrt (\<lambda>a b. textLen b \<le> textLen a) (sort_by_textLen arr)"
  unfolding sort_by_textLen_def by (rule js_sort_desc_sorted)

lemma sort_by_textLen_stable:
  "filter (\<lambda>c. textLen c = k) (sort_by_textLen arr) = filter (\<lambda>c. textLen c = k) arr"
  unfolding sort_by_textLen_def by (rule js_sort_desc_stable)

lemma sort_by_textLen_hd:
  assumes "sort_by_textLen arr = canonical # others"
  shows "canonical \<in> set arr"
    and "\<forall>c \<in> set arr. textLen c \<le> textLen canonical"
    and "filter (\<lambda>c. textLen c = textLen canonical) arr \<noteq> []"
    and "canonical = hd (filter (\<lambda>c. textLen c = textLen canonical) arr)"
    and "mset others = mset arr - {#canonical#}"
proof -
  have s: "set arr = set (canonical # others)"
    using sort_by_textLen_mset[of arr] assms by (metis set_mset_mset)
  then show "canonical \<in> set arr" by simp
  have "sorted_wrt (\<lambda>a b. textLen b \<le> textLen a) (canonical # others)"
    using sort_by_textLen_sorted[of arr] assms by simp
  then show "\<forall>c \<in> set arr. textLen c \<le> textLen canonical"
    using s by auto
  have f: "filter (\<lambda>c. textLen c = textLen canonical) arr
     = canonical # filter (\<lambda>c. textLen c = textLen canonical) others"
    using sort_by_textLen_stable[of "textLen canonical" arr] assms by simp
  then show "filter (\<lambda>c. textLen c = textLen canonical) arr \<noteq> []"
    and "canonical = hd (filter (\<lambda>c. textLen c = textLen canonical) arr)"
    by simp_all
  show "mset others = mset arr - {#canonical#}"
    using sort_by_textLen_mset[of arr] assms by (metis add_mset_remove_trivial mset.simps(2))
qed


section \<open>Properties of the duplicate classification\<close>

lemma isDup_returns:
  assumes "fingerprint_ok canonical" "fingerprint_ok cand"
    and "path canonical \<in> dom out" "path cand \<in> dom out"
  shows "\<exists>b. isDup out canonical cand = Returns b"
proof -
  obtain n where "hamming64 (simhash canonical) (simhash cand) = Some n"
    using hamming64_spec(1)[of "simhash canonical" "simhash cand"] assms(1,2)
    by (auto simp: fingerprint_ok_def)
  moreover obtain ta tb where "out (path canonical) = Some ta" "out (path cand) = Some tb"
    using assms(3,4) by auto
  ultimately show ?thesis
    by (auto simp: isDup_def readUtf8_def Let_def)
qed

lemma classify_returns:
  assumes "\<forall>c \<in> set rest. \<exists>b. isDup out canonical c = Returns b"
  shows "classify out canonical rest keep dupes =
     Returns (keep @ filter (\<lambda>c. isDup out canonical c = Returns False) rest,
              dupes @ filter (\<lambda>c. isDup out canonical c = Returns True) rest)"
  using assms
proof (induction rest arbitrary: keep dupes)
  case Nil
  show ?case by simp
next
  case (Cons cand rest)
  then obtain b where b: "isDup out canonical cand = Returns b" by auto
  have rest: "\<forall>c \<in> set rest. \<exists>b. isDup out canonical c = Returns b"
    using Cons.prems by simp
  show ?case
    using b Cons.IH[OF rest] by (cases b) simp_all
qed

lemma filter_partition_mset:
  assumes "\<forall>c \<in> set xs. \<exists>b. f c = Returns b"
  shows "mset (filter (\<lambda>c. f c = Returns False) xs) + mset (filter (\<lambda>c. f c = Returns True) xs) = mset xs"
  using assms
proof (induction xs)
  case Nil
  show ?case by simp
next
  case (Cons x xs)
  then obtain b where "f x = Returns b" by auto
  with Cons show ?case by (cases b) simp_all
qed

lemma group_outputI:
  assumes "mset keep + mset dupes = mset arr"
    and "navs = map (\<lambda>k. \<lparr> nav_title = title, nav_path = path k, nav_dup = False \<rparr>) keep
               @ map (\<lambda>d. \<lparr> nav_title = title, nav_path = path d, nav_dup = True \<rparr>) dupes"
    and "reps = (if dupes = [] then []
                  else [\<lparr> rep_title = title, rep_kept = map path keep,
                          rep_duplicates = map path dupes, rep_reason = reason_text \<rparr>])"
  shows "group_output (title, arr) (navs, reps)"
  unfolding group_output_def prod.case using assms by blast

lemma process_group_output:
  assumes "group_ready P out (title, arr)"
  shows "\<exists>navs reps. group_output (title, arr) (navs, reps) \<and>
          (\<forall>nav rep. process_group P out (title, arr) (nav, rep) = Returns (nav @ navs, rep @ reps))"
proof -
  from assms have ne: "arr \<noteq> []" and mt: "isMeaningfulTitle P title"
    and ok: "\<forall>c \<in> set arr. fingerprint_ok c \<and> path c \<in> dom out"
    by (simp_all add: group_ready_def list_all_iff)
  show ?thesis
  proof (cases "length arr = 1")
    case True
    then obtain c where arr: "arr = [c]"
      by (cases arr) simp_all
    let ?navs = "[\<lparr> nav_title = title, nav_path = path c, nav_dup = False \<rparr>]"
    have "group_output (title, arr) (?navs, [])"
      by (rule group_outputI[where keep = "[c]" and dupes = "[]"]) (simp_all add: arr)
    moreover have "\<forall>nav rep. process_group P out (title, arr) (nav, rep) = Returns (nav @ ?navs, rep @ [])"
      using mt by (simp add: process_group_def arr)
    ultimately show ?thesis by blast
  next
    case False
    obtain canonical others where srt: "sort_by_textLen arr = canonical # others"
      using ne sort_by_textLen_mset[of arr] by (cases "sort_by_textLen arr") auto
    have mem: "set (canonical # others) = set arr"
      using sort_by_textLen_mset[of arr] srt by (metis set_mset_mset)
    have "\<forall>c \<in> set others. \<exists>b. isDup out canonical c = Returns b"
    proof
      fix c assume "c \<in> set others"
      with mem ok have "fingerprint_ok canonical" "fingerprint_ok c"
        "path canonical \<in> dom out" "path c \<in> dom out"
        by auto
      then show "\<exists>b. isDup out canonical c = Returns b"
        by (rule isDup_returns)
    qed
    note ret = this
    let ?keep = "canonical # filter (\<lambda>c. isDup out canonical c = Returns False) others"
    let ?dupes = "filter (\<lambda>c. isDup out canonical c = Returns True) others"
    have cl: "classify out canonical others [canonical] [] = Returns (?keep, ?dupes)"
      using classify_returns[OF ret, of "[canonical]" "[]"] by simp
    let ?navs = "map (\<lambda>k. \<lparr> nav_title = title, nav_path = path k, nav_dup = False \<rparr>) ?keep
               @ map (\<lambda>d. \<lparr> nav_title = title, nav_path = path d, nav_dup = True \<rparr>) ?dupes"
    let ?reps = "if ?dupes = [] then []
                 else [\<lparr> rep_title = title, rep_kept = map path ?keep,
                          rep_duplicates = map path ?dupes, rep_reason = reason_text \<rparr>]"
    have "mset ?keep + mset ?dupes = mset (canonical # others)"
      using filter_partition_mset[OF ret] by simp
    then have ms: "mset ?keep + mset ?dupes = mset arr"
      using sort_by_textLen_mset[of arr] srt by simp
    have "group_output (title, arr) (?navs, ?reps)"
      by (rule group_outputI[where keep = ?keep and dupes = ?dupes]) (use ms in simp_all)
    moreover have "\<forall>nav rep. process_group P out (title, arr) (nav, rep) = Returns (nav @ ?navs, rep @ ?reps)"
      using mt False by (simp add: process_group_def srt cl Let_def)
    ultimately show ?thesis by blast
  qed
qed

lemma groups_loop_outputs:
  assumes "list_all (group_ready P out) gs"
  shows "\<exists>outs. list_all2 group_output gs outs \<and>
          (\<forall>nav rep. groups_loop P out gs (nav, rep)
             = Returns (nav @ concat (map fst outs), rep @ concat (map snd outs)))"
  using assms
proof (induction gs)
  case Nil
  show ?case by simp
next
  case (Cons g gs)
  obtain title arr where g: "g = (title, arr)" by (cases g)
  from Cons.prems have "group_ready P out (title, arr)" by (simp add: g)
  from process_group_output[OF this] obtain navs reps where
    go: "group_output (title, arr) (navs, reps)" and
    pg: "\<And>nav rep. process_group P out (title, arr) (nav, rep) = Returns (nav @ navs, rep @ reps)"
    by blast
  from Cons obtain outs where
    l2: "list_all2 group_output gs outs" and
    gl: "\<And>nav rep. groups_loop P out gs (nav, rep)
             = Returns (nav @ concat (map fst outs), rep @ concat (map snd outs))"
    by auto
  have "list_all2 group_output (g # gs) ((navs, reps) # outs)"
    using go l2 g by simp
  moreover have "\<forall>nav rep. groups_loop P out (g # gs) (nav, rep)
      = Returns (nav @ concat (map fst ((navs, reps) # outs)), rep @ concat (map snd ((navs, reps) # outs)))"
    by (simp add: g pg gl)
  ultimately show ?case by blast
qed

section \<open>Properties of the grouping by title\<close>

lemma map_of_push:
  "map_of (map (\<lambda>(k, arr). if k = s then (k, arr @ [c]) else (k, arr)) m) t
     = (if t = s then map_option (\<lambda>arr. arr @ [c]) (map_of m t) else map_of m t)"
  by (induction m) auto

lemma map_fst_push:
  "map fst (map (\<lambda>(k, arr). if k = s then (k, arr @ [c]) else (k, arr)) m) = map fst m"
  by (induction m) auto

lemma byTitle_add_keys:
  "map fst (byTitle_add c m)
     = (if strictTitle c \<in> set (map fst m) then map fst m else map fst m @ [strictTitle c])"
  by (auto simp: byTitle_add_def Let_def map_fst_push map_of_eq_None_iff)

lemma byTitle_add_distinct:
  "distinct (map fst m) \<Longrightarrow> distinct (map fst (byTitle_add c m))"
  by (simp add: byTitle_add_keys)

lemma byTitle_add_map_of:
  "map_of (byTitle_add c m) t
     = (if t = strictTitle c
        then Some ((case map_of m t of None \<Rightarrow> [] | Some arr \<Rightarrow> arr) @ [c])
        else map_of m t)"
  by (auto simp: byTitle_add_def Let_def map_of_push map_add_def split: option.splits)

lemma fold_byTitle_add:
  "distinct (map fst m) \<Longrightarrow>
   distinct (map fst (fold byTitle_add cs m)) \<and>
   map_of (fold byTitle_add cs m) t
     = (if map_of m t = None \<and> filter (\<lambda>c. strictTitle c = t) cs = [] then None
        else Some ((case map_of m t of None \<Rightarrow> [] | Some arr \<Rightarrow> arr)
                   @ filter (\<lambda>c. strictTitle c = t) cs))"
proof (induction cs arbitrary: m)
  case Nil
  then show ?case by (auto split: option.splits)
next
  case (Cons c cs)
  from Cons.IH[OF byTitle_add_distinct[OF Cons.prems, of c]] show ?case
    by (auto simp: byTitle_add_map_of split: option.splits)
qed

lemma byTitle_distinct: "distinct (map fst (byTitle cs))"
  using fold_byTitle_add[of "[]" cs] by (simp add: byTitle_def)

lemma byTitle_group:
  "(t, arr) \<in> set (byTitle cs) \<longleftrightarrow> arr = filter (\<lambda>c. strictTitle c = t) cs \<and> arr \<noteq> []"
proof -
  have "(t, arr) \<in> set (byTitle cs) \<longleftrightarrow> map_of (byTitle cs) t = Some arr"
    using byTitle_distinct[of cs] by simp
  also have "\<dots> \<longleftrightarrow> arr = filter (\<lambda>c. strictTitle c = t) cs \<and> arr \<noteq> []"
    using fold_byTitle_add[of "[]" cs t] by (auto simp: byTitle_def)
  finally show ?thesis .
qed

section \<open>Properties of the candidates\<close>

lemma page_candidate_Some:
  assumes "page_candidate P pg = Some c"
  shows "path c = rel pg" and "isMeaningfulTitle P (strictTitle c)" and "fingerprint_ok c"
    and "strictTitle c = snd (page_titles pg)" and "textLen c = length (norm pg)"
    and "simhash c = simhash64 (tokenize (norm pg))"
  using assms simhash64_range[of "tokenize (norm pg)"]
  by (auto simp: page_candidate_def includeInFlatNav_def fingerprint_ok_def Let_def
           split: prod.splits if_splits)

lemma candidates_of_set:
  "c \<in> set (candidates_of P pages) \<longleftrightarrow> (\<exists>pg \<in> set pages. page_candidate P pg = Some c)"
  unfolding candidates_of_def
  by (induction pages) (auto split: option.splits)

lemma fold_written_dom:
  "dom (fold (\<lambda>pg out. out(rel pg \<mapsto> written pg)) pages m) = dom m \<union> rel ` set pages"
  by (induction pages arbitrary: m) auto

lemma written_pages_dom: "dom (written_pages pages) = rel ` set pages"
  by (simp add: written_pages_def fold_written_dom)

lemma candidates_ready:
  "list_all (group_ready P (written_pages pages)) (byTitle (candidates_of P pages))"
proof -
  have "group_ready P (written_pages pages) (t, arr)"
    if "(t, arr) \<in> set (byTitle (candidates_of P pages))" for t arr
  proof -
    from that have arr: "arr = filter (\<lambda>c. strictTitle c = t) (candidates_of P pages)"
      and ne: "arr \<noteq> []"
      by (auto simp: byTitle_group)
    have each: "fingerprint_ok c \<and> path c \<in> dom (written_pages pages)
        \<and> isMeaningfulTitle P (strictTitle c) \<and> strictTitle c = t"
      if "c \<in> set arr" for c
    proof -
      from that arr have c: "c \<in> set (candidates_of P pages)" and t: "strictTitle c = t"
        by simp_all
      then obtain pg where pg: "pg \<in> set pages" and pc: "page_candidate P pg = Some c"
        by (auto simp: candidates_of_set)
      have "path c \<in> dom (written_pages pages)"
        using pg page_candidate_Some(1)[OF pc] by (simp add: written_pages_dom)
      with t page_candidate_Some(2,3)[OF pc] show ?thesis
        by simp
    qed
    obtain c where "c \<in> set arr" using ne by (cases arr) auto
    with each have "isMeaningfulTitle P t" by blast
    with ne each show ?thesis
      by (simp add: group_ready_def list_all_iff)
  qed
  then show ?thesis
    by (auto simp: list_all_iff)
qed

section \<open>The entries of one title\<close>

lemma group_output_titles:
  assumes "group_output (t, arr) (navs, reps)"
  shows "\<forall>it \<in> set navs. nav_title it = t" and "\<forall>r \<in> set reps. rep_title r = t"
  using assms by (auto simp: group_output_def split: if_splits)

lemma outputs_of_title:
  assumes "list_all2 group_output gs outs" and "distinct (map fst gs)" and "(t, arr) \<in> set gs"
  shows "group_output (t, arr)
           (filter (\<lambda>it. nav_title it = t) (concat (map fst outs)),
            filter (\<lambda>r. rep_title r = t) (concat (map snd outs)))"
  using assms
proof (induction gs outs rule: list_all2_induct)
  case Nil
  then show ?case by simp
next
  case (Cons g gs res outs)
  obtain t' arr' where g: "g = (t', arr')" by (cases g)
  obtain navs reps where res: "res = (navs, reps)" by (cases res)
  from Cons.hyps(1) have go: "group_output (t', arr') (navs, reps)"
    by (simp add: g res)
  note tt = group_output_titles[OF go]
  show ?case
  proof (cases "t' = t")
    case True
    with Cons.prems g have "arr' = arr" and notin: "t \<notin> fst ` set gs"
      by (auto simp: image_iff)
    have "\<forall>res' \<in> set outs. \<forall>it \<in> set (fst res'). nav_title it \<noteq> t"
      and "\<forall>res' \<in> set outs. \<forall>r \<in> set (snd res'). rep_title r \<noteq> t"
    proof -
      have *: "\<exists>g' \<in> set gs. group_output g' res'" if "res' \<in> set outs" for res'
        using Cons.hyps(2) that by (metis in_set_conv_nth list_all2_conv_all_nth)
      show "\<forall>res' \<in> set outs. \<forall>it \<in> set (fst res'). nav_title it \<noteq> t"
      proof (intro ballI)
        fix res' it assume "res' \<in> set outs" "it \<in> set (fst res')"
        with * obtain g' where g': "g' \<in> set gs" "group_output g' res'" by blast
        then have "nav_title it = fst g'"
          using group_output_titles(1)[of "fst g'" "snd g'" "fst res'" "snd res'"]
            \<open>it \<in> set (fst res')\<close> by simp
        with g'(1) notin show "nav_title it \<noteq> t" by auto
      qed
      show "\<forall>res' \<in> set outs. \<forall>r \<in> set (snd res'). rep_title r \<noteq> t"
      proof (intro ballI)
        fix res' r assume "res' \<in> set outs" "r \<in> set (snd res')"
        with * obtain g' where g': "g' \<in> set gs" "group_output g' res'" by blast
        then have "rep_title r = fst g'"
          using group_output_titles(2)[of "fst g'" "snd g'" "fst res'" "snd res'"]
            \<open>r \<in> set (snd res')\<close> by simp
        with g'(1) notin show "rep_title r \<noteq> t" by auto
      qed
    qed
    then have "filter (\<lambda>it. nav_title it = t) (concat (map fst outs)) = []"
      and "filter (\<lambda>r. rep_title r = t) (concat (map snd outs)) = []"
      by (auto simp: filter_empty_conv)
    moreover have "filter (\<lambda>it. nav_title it = t) navs = navs"
      and "filter (\<lambda>r. rep_title r = t) reps = reps"
      using tt True by (auto simp: filter_id_conv)
    ultimately show ?thesis
      using go True \<open>arr' = arr\<close> by (simp add: res)
  next
    case False
    with Cons.prems g have "(t, arr) \<in> set gs" "distinct (map fst gs)"
      by auto
    from Cons.IH[OF this(2,1)] have IH: "group_output (t, arr)
           (filter (\<lambda>it. nav_title it = t) (concat (map fst outs)),
            filter (\<lambda>r. rep_title r = t) (concat (map snd outs)))" .
    have "filter (\<lambda>it. nav_title it = t) navs = []"
      and "filter (\<lambda>r. rep_title r = t) reps = []"
      using tt False by (auto simp: filter_empty_conv)
    with IH show ?thesis by (simp add: res)
  qed
qed

section \<open>The whole pass\<close>

lemma group_output_reason:
  assumes "group_output g res"
  shows "\<forall>r \<in> set (snd res). rep_reason r = reason_text"
  using assms by (auto simp: group_output_def split: if_splits prod.splits)

lemma outputs_meaningful:
  assumes "list_all2 group_output gs outs" and "list_all (group_ready P out) gs"
  shows "\<forall>it \<in> set (concat (map fst outs)). isMeaningfulTitle P (nav_title it)"
  using assms
proof (induction gs outs rule: list_all2_induct)
  case Nil
  show ?case by simp
next
  case (Cons g gs res outs)
  obtain t arr where g: "g = (t, arr)" by (cases g)
  obtain navs reps where res: "res = (navs, reps)" by (cases res)
  from Cons.prems g have "isMeaningfulTitle P t"
    by (simp add: group_ready_def)
  moreover have "\<forall>it \<in> set navs. nav_title it = t"
    using Cons.hyps(1) group_output_titles(1)[of t arr navs reps] by (simp add: g res)
  ultimately show ?case
    using Cons by (auto simp: res)
qed

lemma main_outputs:
  "\<exists>outs nav.
     list_all2 group_output (byTitle (candidates_of P pages)) outs \<and>
     main P pages = Returns (concat (map snd outs), nav) \<and>
     mset nav = mset (concat (map fst outs))"
proof -
  let ?gs = "byTitle (candidates_of P pages)"
  let ?out = "written_pages pages"
  have ready: "list_all (group_ready P ?out) ?gs"
    by (rule candidates_ready)
  from groups_loop_outputs[OF ready] obtain outs where
    l2: "list_all2 group_output ?gs outs" and
    gl: "groups_loop P ?out ?gs ([], []) = Returns (concat (map fst outs), concat (map snd outs))"
    by force
  let ?N = "concat (map fst outs)"
  let ?sorted = "js_sort (\<lambda>a b. localeCompare P (nav_title a) (nav_title b)) ?N"
  let ?nav = "filter (\<lambda>it. isMeaningfulTitle P (nav_title it)) ?sorted"
  have "\<forall>it \<in> set ?sorted. isMeaningfulTitle P (nav_title it)"
    using outputs_meaningful[OF l2 ready] by (simp add: js_sort_set)
  then have "?nav = ?sorted"
    by (simp add: filter_id_conv)
  then have "mset ?nav = mset ?N"
    by (simp add: js_sort_mset)
  moreover have "main P pages = Returns (concat (map snd outs), ?nav)"
    by (simp add: main_def dedupe_def gl Let_def)
  ultimately show ?thesis
    using l2 by blast
qed

lemma mset_filter_cong:
  "mset xs = mset ys \<Longrightarrow> mset (filter Q xs) = mset (filter Q ys)"
  by (metis mset_filter)

lemma mset_map_cong:
  "mset xs = mset ys \<Longrightarrow> mset (map f xs) = mset (map f ys)"
  by (metis mset_map)


text \<open>
  C3. For every title group of size \<open>N\<close>, the pass returns and the navigation manifest
  has exactly \<open>N\<close> entries of that title, one per member (canonical, kept and duplicate
  members alike: the paths of the entries are the paths of the members). When none of the
  entries is flagged duplicate the report has no record of the title; otherwise it has
  exactly one, whose duplicates are the paths of the flagged entries and whose kept list
  is the paths of the others.
\<close>

theorem manifest_and_report_of_title_group:
  assumes "(title, arr) \<in> set (byTitle (candidates_of P pages))"
  shows "\<exists>report nav.
     main P pages = Returns (report, nav) \<and>
     length (entries_for title nav) = length arr \<and>
     mset (map nav_path (entries_for title nav)) = mset (map path arr) \<and>
     (filter nav_dup (entries_for title nav) = [] \<longrightarrow> records_for title report = []) \<and>
     (filter nav_dup (entries_for title nav) \<noteq> [] \<longrightarrow>
        (\<exists>r. records_for title report = [r] \<and>
             mset (rep_duplicates r) = mset (map nav_path (filter nav_dup (entries_for title nav))) \<and>
             mset (rep_kept r)
               = mset (map nav_path (filter (\<lambda>it. \<not> nav_dup it) (entries_for title nav)))))"
proof -
  let ?gs = "byTitle (candidates_of P pages)"
  from main_outputs[of P pages] obtain outs nav where
    l2: "list_all2 group_output ?gs outs" and
    run: "main P pages = Returns (concat (map snd outs), nav)" and
    perm: "mset nav = mset (concat (map fst outs))"
    by blast
  let ?report = "concat (map snd outs)"
  let ?N = "concat (map fst outs)"
  have "group_output (title, arr)
          (filter (\<lambda>it. nav_title it = title) ?N, filter (\<lambda>r. rep_title r = title) ?report)"
    using l2 byTitle_distinct assms by (rule outputs_of_title)
  then obtain keep dupes where
    parts: "mset keep + mset dupes = mset arr" and
    navs: "filter (\<lambda>it. nav_title it = title) ?N
         = map (\<lambda>k. \<lparr> nav_title = title, nav_path = path k, nav_dup = False \<rparr>) keep
         @ map (\<lambda>d. \<lparr> nav_title = title, nav_path = path d, nav_dup = True \<rparr>) dupes" and
    reps: "records_for title ?report = (if dupes = [] then []
                  else [\<lparr> rep_title = title, rep_kept = map path keep,
                          rep_duplicates = map path dupes, rep_reason = reason_text \<rparr>])"
    unfolding group_output_def records_for_def by auto
  let ?E = "map (\<lambda>k. \<lparr> nav_title = title, nav_path = path k, nav_dup = False \<rparr>) keep
         @ map (\<lambda>d. \<lparr> nav_title = title, nav_path = path d, nav_dup = True \<rparr>) dupes"
  have ent: "mset (entries_for title nav) = mset ?E"
  proof -
    have "mset (entries_for title nav) = mset (filter (\<lambda>it. nav_title it = title) ?N)"
      unfolding entries_for_def using perm by (rule mset_filter_cong)
    also have "filter (\<lambda>it. nav_title it = title) ?N = ?E"
      by (rule navs)
    finally show ?thesis .
  qed
  have len: "length (entries_for title nav) = length arr"
  proof -
    have "length (entries_for title nav) = length ?E"
      using ent by (metis size_mset)
    also have "\<dots> = length keep + length dupes" by simp
    also have "\<dots> = length arr"
      using parts by (metis size_mset size_union)
    finally show ?thesis .
  qed
  have paths: "mset (map nav_path (entries_for title nav)) = mset (map path arr)"
  proof -
    have "mset (map nav_path (entries_for title nav)) = mset (map nav_path ?E)"
      using ent by (rule mset_map_cong)
    also have "\<dots> = mset (map path keep) + mset (map path dupes)"
      by (simp add: comp_def)
    also have "\<dots> = mset (map path arr)"
      using parts by (metis image_mset_union mset_map)
    finally show ?thesis .
  qed
  have fl: "mset (filter nav_dup (entries_for title nav))
          = mset (map (\<lambda>d. \<lparr> nav_title = title, nav_path = path d, nav_dup = True \<rparr>) dupes)"
  proof -
    have "mset (filter nav_dup (entries_for title nav)) = mset (filter nav_dup ?E)"
      using ent by (rule mset_filter_cong)
    also have "filter nav_dup ?E = map (\<lambda>d. \<lparr> nav_title = title, nav_path = path d, nav_dup = True \<rparr>) dupes"
      by (simp add: filter_map comp_def)
    finally show ?thesis .
  qed
  have ufl: "mset (filter (\<lambda>it. \<not> nav_dup it) (entries_for title nav))
          = mset (map (\<lambda>k. \<lparr> nav_title = title, nav_path = path k, nav_dup = False \<rparr>) keep)"
  proof -
    have "mset (filter (\<lambda>it. \<not> nav_dup it) (entries_for title nav))
        = mset (filter (\<lambda>it. \<not> nav_dup it) ?E)"
      using ent by (rule mset_filter_cong)
    also have "filter (\<lambda>it. \<not> nav_dup it) ?E
        = map (\<lambda>k. \<lparr> nav_title = title, nav_path = path k, nav_dup = False \<rparr>) keep"
      by (simp add: filter_map comp_def)
    finally show ?thesis .
  qed
  have flp: "mset (map nav_path (filter nav_dup (entries_for title nav))) = mset (map path dupes)"
    using mset_map_cong[OF fl, of nav_path] by (simp add: comp_def)
  have uflp: "mset (map nav_path (filter (\<lambda>it. \<not> nav_dup it) (entries_for title nav)))
      = mset (map path keep)"
    using mset_map_cong[OF ufl, of nav_path] by (simp add: comp_def)
  have empty: "filter nav_dup (entries_for title nav) = [] \<longleftrightarrow> dupes = []"
    using fl by (metis map_is_Nil_conv mset_zero_iff)
  have none: "filter nav_dup (entries_for title nav) = [] \<longrightarrow> records_for title ?report = []"
    using empty reps by simp
  have some: "filter nav_dup (entries_for title nav) \<noteq> [] \<longrightarrow>
        (\<exists>r. records_for title ?report = [r] \<and>
             mset (rep_duplicates r) = mset (map nav_path (filter nav_dup (entries_for title nav))) \<and>
             mset (rep_kept r)
               = mset (map nav_path (filter (\<lambda>it. \<not> nav_dup it) (entries_for title nav))))"
    using empty reps flp uflp by simp
  from run len paths none some show ?thesis
    by blast
qed

theorem manifest_and_report_of_title_group_witness:
  "(js ''Engine Removal'', candidates_of ascii_platform pages_same_tokens)
      \<in> set (byTitle (candidates_of ascii_platform pages_same_tokens)) \<and>
   (\<exists>report nav.
     main ascii_platform pages_same_tokens = Returns (report, nav) \<and>
     length (entries_for (js ''Engine Removal'') nav) = 2 \<and>
     mset (map nav_path (entries_for (js ''Engine Removal'') nav))
       = mset (map path (candidates_of ascii_platform pages_same_tokens)) \<and>
     (filter nav_dup (entries_for (js ''Engine Removal'') nav) = [] \<longrightarrow>
        records_for (js ''Engine Removal'') report = []) \<and>
     (filter nav_dup (entries_for (js ''Engine Removal'') nav) \<noteq> [] \<longrightarrow>
        (\<exists>r. records_for (js ''Engine Removal'') report = [r] \<and>
             mset (rep_duplicates r)
               = mset (map nav_path (filter nav_dup (entries_for (js ''Engine Removal'') nav))) \<and>
             mset (rep_kept r)
               = mset (map nav_path (filter (\<lambda>it. \<not> nav_dup it)
                    (entries_for (js ''Engine Removal'') nav))))))"
proof -
  have g: "(js ''Engine Removal'', candidates_of ascii_platform pages_same_tokens)
      \<in> set (byTitle (candidates_of ascii_platform pages_same_tokens))"
    by code_simp
  have n: "length (candidates_of ascii_platform pages_same_tokens) = 2"
    by code_simp
  from manifest_and_report_of_title_group [OF g] show ?thesis
    unfolding n using g by blast
qed


subsection \<open>The reason of a report record\<close>

lemma reason_text_eq: "reason_text = js ''HAMMING<=3 or JACCARD>=0.98''"
  by (simp add: reason_text_def js_def)

lemma group_output_records:
  assumes "group_output g res"
  shows "\<forall>r \<in> set (snd res). rep_duplicates r \<noteq> [] \<and> rep_reason r = reason_text"
  using assms by (auto simp: group_output_def split: if_splits prod.splits)

lemma outputs_records:
  assumes "list_all2 group_output gs outs"
  shows "\<forall>r \<in> set (concat (map snd outs)). rep_duplicates r \<noteq> [] \<and> rep_reason r = reason_text"
  using assms
proof (induction gs outs rule: list_all2_induct)
  case Nil
  show ?case by simp
next
  case (Cons g gs res outs)
  from group_output_records[OF Cons.hyps(1)] Cons.IH show ?case
    by auto
qed

text \<open>
  The reason does not tell the rules apart. In the first sample the duplicate is at
  Hamming distance 0 from the canonical (the fingerprint rule); in the second it is at
  distance 11 and is a duplicate by the Jaccard similarity 1 of the token sets. Both
  records carry the same reason.
\<close>

theorem report_reason_same_for_both_rules:
  "hamming64 (simhash64 (tokenize (js ''engine removal procedure of'')))
             (simhash64 (tokenize (js ''engine removal procedure''))) = Some 0 \<and>
   main ascii_platform pages_same_tokens = Returns
     ([\<lparr> rep_title = js ''Engine Removal'', rep_kept = [js ''en/html/long.html''],
         rep_duplicates = [js ''en/html/short.html''],
         rep_reason = js ''HAMMING<=3 or JACCARD>=0.98'' \<rparr>],
      [\<lparr> nav_title = js ''Engine Removal'', nav_path = js ''en/html/long.html'', nav_dup = False \<rparr>,
       \<lparr> nav_title = js ''Engine Removal'', nav_path = js ''en/html/short.html'', nav_dup = True \<rparr>]) \<and>
   hamming64 (simhash64 (tokenize (js ''engine removal removal removal'')))
             (simhash64 (tokenize (js ''engine removal''))) = Some 11 \<and>
   jaccard (new_Set (tokenize (js ''engine removal removal removal'')))
           (new_Set (tokenize (js ''engine removal''))) = 1 \<and>
   main ascii_platform pages_repeated_token = Returns
     ([\<lparr> rep_title = js ''Engine Removal'', rep_kept = [js ''en/html/thrice.html''],
         rep_duplicates = [js ''en/html/once.html''],
         rep_reason = js ''HAMMING<=3 or JACCARD>=0.98'' \<rparr>],
      [\<lparr> nav_title = js ''Engine Removal'', nav_path = js ''en/html/thrice.html'', nav_dup = False \<rparr>,
       \<lparr> nav_title = js ''Engine Removal'', nav_path = js ''en/html/once.html'', nav_dup = True \<rparr>])"
  by code_simp


text \<open>
  C8, as the program has it. The pass returns, and every report record (there is one per
  group with at least one duplicate) carries the same fixed reason
  \<^verbatim>\<open>HAMMING<=3 or JACCARD>=0.98\<close>: it names both rules with their thresholds, whichever
  of them classified the members.
\<close>

theorem report_reason_is_fixed_text:
  "\<exists>report nav.
     main P pages = Returns (report, nav) \<and>
     (\<forall>r \<in> set report. rep_duplicates r \<noteq> [] \<and>
                        rep_reason r = js ''HAMMING<=3 or JACCARD>=0.98'')"
proof -
  from main_outputs[of P pages] obtain outs nav where
    l2: "list_all2 group_output (byTitle (candidates_of P pages)) outs" and
    run: "main P pages = Returns (concat (map snd outs), nav)"
    by blast
  have "\<forall>r \<in> set (concat (map snd outs)). rep_duplicates r \<noteq> [] \<and>
            rep_reason r = js ''HAMMING<=3 or JACCARD>=0.98''"
    using outputs_records[OF l2] by (simp only: reason_text_eq)
  with run show ?thesis by blast
qed

theorem report_reason_is_fixed_text_witness:
  "\<exists>report nav.
     main ascii_platform pages_repeated_token = Returns (report, nav) \<and>
     report \<noteq> [] \<and>
     (\<forall>r \<in> set report. rep_duplicates r \<noteq> [] \<and>
                        rep_reason r = js ''HAMMING<=3 or JACCARD>=0.98'')"
proof -
  have run: "main ascii_platform pages_repeated_token = Returns
     ([\<lparr> rep_title = js ''Engine Removal'', rep_kept = [js ''en/html/thrice.html''],
         rep_duplicates = [js ''en/html/once.html''],
         rep_reason = js ''HAMMING<=3 or JACCARD>=0.98'' \<rparr>],
      [\<lparr> nav_title = js ''Engine Removal'', nav_path = js ''en/html/thrice.html'', nav_dup = False \<rparr>,
       \<lparr> nav_title = js ''Engine Removal'', nav_path = js ''en/html/once.html'', nav_dup = True \<rparr>])"
    by code_simp
  from report_reason_is_fixed_text [of ascii_platform pages_repeated_token] run
  show ?thesis by auto
qed


subsection \<open>The canonical member of a group\<close>

lemma classify_keeps_prefix:
  "classify out canonical rest keep dupes = Returns (keep', dupes') \<Longrightarrow>
   \<exists>k d. keep' = keep @ k \<and> dupes' = dupes @ d"
proof (induction rest arbitrary: keep dupes)
  case Nil
  then show ?case by simp
next
  case (Cons cand rest)
  show ?case
  proof (cases "isDup out canonical cand")
    case (Returns b)
    show ?thesis
    proof (cases b)
      case True
      with Returns Cons.prems
      have "classify out canonical rest keep (dupes @ [cand]) = Returns (keep', dupes')"
        by simp
      from Cons.IH[OF this] show ?thesis by auto
    next
      case False
      with Returns Cons.prems
      have "classify out canonical rest (keep @ [cand]) dupes = Returns (keep', dupes')"
        by simp
      from Cons.IH[OF this] show ?thesis by auto
    qed
  next
    case (Throws e)
    with Cons.prems show ?thesis by simp
  next
    case Hangs
    with Cons.prems show ?thesis by simp
  qed
qed

lemma process_group_first_entry:
  assumes "length arr \<noteq> 1" and "sort_by_textLen arr = canonical # others"
    and "isMeaningfulTitle P title"
    and "process_group P out (title, arr) (nav, rep) = Returns (nav', rep')"
  shows "\<exists>navs. nav' = nav @ \<lparr> nav_title = title, nav_path = path canonical, nav_dup = False \<rparr> # navs"
proof (cases "classify out canonical others [canonical] []")
  case (Returns kd)
  obtain keep dupes where kd: "kd = (keep, dupes)" by (cases kd)
  from classify_keeps_prefix[OF Returns[unfolded kd]] obtain k where k: "keep = canonical # k"
    by auto
  from assms Returns have "nav' = nav @ \<lparr> nav_title = title, nav_path = path canonical, nav_dup = False \<rparr>
      # (map (\<lambda>k. \<lparr> nav_title = title, nav_path = path k, nav_dup = False \<rparr>) k
         @ map (\<lambda>d. \<lparr> nav_title = title, nav_path = path d, nav_dup = True \<rparr>) dupes)"
    by (auto simp: process_group_def kd k Let_def)
  then show ?thesis by (rule exI)
next
  case (Throws e)
  with assms show ?thesis by (simp add: process_group_def)
next
  case Hangs
  with assms show ?thesis by (simp add: process_group_def)
qed

text \<open>
  C2. For every title group of more than one member, the members are sorted by
  normalized-text length, longest first (a permutation of the group, stable), and the
  first of the sorted list is the canonical member: no member has a longer text, and
  among the members of that length it is the first in scan order. The group's first
  manifest entry is the canonical member's, not flagged duplicate.
\<close>

theorem canonical_is_longest_member:
  assumes "1 < length arr"
  shows "\<exists>canonical others.
     sort_by_textLen arr = canonical # others \<and>
     sorted_wrt (\<lambda>a b. textLen b \<le> textLen a) (canonical # others) \<and>
     mset (canonical # others) = mset arr \<and>
     (\<forall>c \<in> set arr. textLen c \<le> textLen canonical) \<and>
     canonical = hd (filter (\<lambda>c. textLen c = textLen canonical) arr) \<and>
     (\<forall>nav rep nav' rep'.
        isMeaningfulTitle P title \<and>
        process_group P out (title, arr) (nav, rep) = Returns (nav', rep') \<longrightarrow>
        (\<exists>navs. nav' = nav @ \<lparr> nav_title = title, nav_path = path canonical, nav_dup = False \<rparr> # navs))"
proof -
  from assms have "arr \<noteq> []" by auto
  then obtain canonical others where srt: "sort_by_textLen arr = canonical # others"
    using sort_by_textLen_mset[of arr] by (cases "sort_by_textLen arr") auto
  have "sorted_wrt (\<lambda>a b. textLen b \<le> textLen a) (canonical # others)"
    using sort_by_textLen_sorted[of arr] by (simp only: srt)
  moreover have "mset (canonical # others) = mset arr"
    using sort_by_textLen_mset[of arr] by (simp only: srt)
  moreover note sort_by_textLen_hd(2,4)[OF srt]
  moreover have "\<forall>nav rep nav' rep'.
        isMeaningfulTitle P title \<and>
        process_group P out (title, arr) (nav, rep) = Returns (nav', rep') \<longrightarrow>
        (\<exists>navs. nav' = nav @ \<lparr> nav_title = title, nav_path = path canonical, nav_dup = False \<rparr> # navs)"
    using process_group_first_entry[OF _ srt] assms by (metis less_numeral_extra(4))
  ultimately show ?thesis
    using srt by blast
qed


theorem canonical_is_longest_member_witness:
  "1 < length [doc_480, doc_500] \<and>
   isMeaningfulTitle ascii_platform (js ''Engine Removal Procedure'') \<and>
   process_group ascii_platform Map.empty (js ''Engine Removal Procedure'', [doc_480, doc_500]) ([], [])
     = Returns
        ([\<lparr> nav_title = js ''Engine Removal Procedure'', nav_path = path doc_500, nav_dup = False \<rparr>,
          \<lparr> nav_title = js ''Engine Removal Procedure'', nav_path = path doc_480, nav_dup = True \<rparr>],
         [\<lparr> rep_title = js ''Engine Removal Procedure'', rep_kept = [path doc_500],
            rep_duplicates = [path doc_480], rep_reason = reason_text \<rparr>]) \<and>
   (\<exists>canonical others.
      sort_by_textLen [doc_480, doc_500] = canonical # others \<and>
      canonical = doc_500 \<and> others = [doc_480] \<and>
      sorted_wrt (\<lambda>a b. textLen b \<le> textLen a) (canonical # others) \<and>
      (\<forall>c \<in> set [doc_480, doc_500]. textLen c \<le> textLen canonical))"
proof -
  have l: "1 < length [doc_480, doc_500]"
    by simp
  have m: "isMeaningfulTitle ascii_platform (js ''Engine Removal Procedure'')"
    by code_simp
  have s: "sort_by_textLen [doc_480, doc_500] = [doc_500, doc_480]"
    by code_simp
  have p: "process_group ascii_platform Map.empty (js ''Engine Removal Procedure'', [doc_480, doc_500]) ([], [])
     = Returns
        ([\<lparr> nav_title = js ''Engine Removal Procedure'', nav_path = path doc_500, nav_dup = False \<rparr>,
          \<lparr> nav_title = js ''Engine Removal Procedure'', nav_path = path doc_480, nav_dup = True \<rparr>],
         [\<lparr> rep_title = js ''Engine Removal Procedure'', rep_kept = [path doc_500],
            rep_duplicates = [path doc_480], rep_reason = reason_text \<rparr>])"
    by code_simp
  from canonical_is_longest_member [OF l, of ascii_platform "js ''Engine Removal Procedure''" Map.empty]
  obtain canonical others where
    c: "sort_by_textLen [doc_480, doc_500] = canonical # others"
      "sorted_wrt (\<lambda>a b. textLen b \<le> textLen a) (canonical # others)"
      "\<forall>c \<in> set [doc_480, doc_500]. textLen c \<le> textLen canonical"
    by blast
  from c(1) s have "canonical = doc_500" "others = [doc_480]"
    by simp_all
  with c l m p show ?thesis
    by blast
qed


subsection \<open>Pages without text\<close>

lemma tokenize_empty: "tokenize [] = []"
  by (simp add: tokenize_def)

lemma simhash64_empty: "simhash64 [] = 0"
  by (rule bit_eqI) (simp add: simhash64_bit spec_accumulator_def)

lemma hamming64_zero: "hamming64 0 0 = Some 0"
  unfolding hamming64_def by (subst hamming64_loop.simps) simp

lemma isDup_both_zero:
  assumes "simhash canonical = 0" and "simhash cand = 0"
  shows "isDup out canonical cand = Returns True"
  using assms by (simp add: isDup_def hamming64_zero HAMMING_MAX_def)

lemma classify_all_zero:
  assumes "simhash canonical = 0" and "\<forall>c \<in> set others. simhash c = 0"
  shows "classify out canonical others keep dupes = Returns (keep, dupes @ others)"
  using assms(2)
proof (induction others arbitrary: dupes)
  case Nil
  show ?case by simp
next
  case (Cons cand others)
  then have "isDup out canonical cand = Returns True"
    using isDup_both_zero[OF assms(1)] by simp
  with Cons show ?case by simp
qed

text \<open>
  Two members without text need not be duplicates: each member is compared with the
  canonical member only. In the third sample the canonical page has text; the two pages
  without text have fingerprint 0, the comparison with the canonical goes on to read the
  written pages (on an empty output tree it throws), and both stay in the manifest
  unflagged, with no report record.
\<close>

theorem empty_text_members_kept_apart:
  "map textLen (candidates_of ascii_platform pages_two_empty) = [24, 0, 0] \<and>
   map strictTitle (candidates_of ascii_platform pages_two_empty)
     = [js ''Engine Removal'', js ''Engine Removal'', js ''Engine Removal''] \<and>
   map simhash (tl (candidates_of ascii_platform pages_two_empty)) = [0, 0] \<and>
   map (isDup Map.empty (hd (candidates_of ascii_platform pages_two_empty)))
       (tl (candidates_of ascii_platform pages_two_empty))
     = [Throws (ENOENT (js ''en/html/text.html'')), Throws (ENOENT (js ''en/html/text.html''))] \<and>
   main ascii_platform pages_two_empty = Returns
     ([],
      [\<lparr> nav_title = js ''Engine Removal'', nav_path = js ''en/html/text.html'', nav_dup = False \<rparr>,
       \<lparr> nav_title = js ''Engine Removal'', nav_path = js ''en/html/blank1.html'', nav_dup = False \<rparr>,
       \<lparr> nav_title = js ''Engine Removal'', nav_path = js ''en/html/blank2.html'', nav_dup = False \<rparr>])"
  by code_simp


text \<open>
  C10, as the program has it. A document whose normalized text is the empty string
  tokenizes to the empty token list and gets text length 0 and fingerprint 0. A member
  with fingerprint 0 compared with a canonical member with fingerprint 0 is at Hamming
  distance 0 and is classified duplicate by the fingerprint rule, whatever the output
  tree holds, also when it holds nothing: no page is read. So in a group whose members
  all have fingerprint 0, every member but the canonical one is a duplicate.
\<close>

theorem empty_text_members:
  "tokenize [] = [] \<and> simhash64 (tokenize []) = 0 \<and>
   (page_candidate P pg = Some c \<and> norm pg = [] \<longrightarrow> textLen c = 0 \<and> simhash c = 0) \<and>
   (simhash canonical = 0 \<and> simhash cand = 0 \<longrightarrow>
      hamming64 (simhash canonical) (simhash cand) = Some 0 \<and>
      isDup out canonical cand = Returns True \<and>
      isDup Map.empty canonical cand = Returns True) \<and>
   (simhash canonical = 0 \<and> (\<forall>c \<in> set others. simhash c = 0) \<longrightarrow>
      classify out canonical others [canonical] [] = Returns ([canonical], others))"
proof (intro conjI impI)
  show "tokenize [] = []" by (rule tokenize_empty)
  show "simhash64 (tokenize []) = 0" by (simp only: tokenize_empty simhash64_empty)
next
  assume h: "page_candidate P pg = Some c \<and> norm pg = []"
  then show "textLen c = 0" and "simhash c = 0"
    using page_candidate_Some(5,6)[of P pg c] by (simp_all add: tokenize_empty simhash64_empty)
next
  assume z: "simhash canonical = 0 \<and> simhash cand = 0"
  then show "hamming64 (simhash canonical) (simhash cand) = Some 0"
    by (simp add: hamming64_zero)
  from z show "isDup out canonical cand = Returns True"
    by (simp add: isDup_both_zero)
  from z show "isDup Map.empty canonical cand = Returns True"
    by (simp add: isDup_both_zero)
next
  assume "simhash canonical = 0 \<and> (\<forall>c \<in> set others. simhash c = 0)"
  then show "classify out canonical others [canonical] [] = Returns ([canonical], others)"
    using classify_all_zero[of canonical others out "[canonical]" "[]"] by simp
qed

theorem empty_text_members_witness:
  "page_candidate ascii_platform (sample_page ''blank1.html'' ''Engine Removal'' '''')
     = Some \<lparr> path = js ''en/html/blank1.html'', strictTitle = js ''Engine Removal'',
              dispTitle = js ''Engine Removal'', textLen = 0, simhash = 0 \<rparr> \<and>
   norm (sample_page ''blank1.html'' ''Engine Removal'' '''') = [] \<and>
   page_candidate ascii_platform (sample_page ''blank2.html'' ''Engine Removal'' '''')
     = Some \<lparr> path = js ''en/html/blank2.html'', strictTitle = js ''Engine Removal'',
              dispTitle = js ''Engine Removal'', textLen = 0, simhash = 0 \<rparr> \<and>
   isDup Map.empty
     \<lparr> path = js ''en/html/blank1.html'', strictTitle = js ''Engine Removal'',
        dispTitle = js ''Engine Removal'', textLen = 0, simhash = 0 \<rparr>
     \<lparr> path = js ''en/html/blank2.html'', strictTitle = js ''Engine Removal'',
        dispTitle = js ''Engine Removal'', textLen = 0, simhash = 0 \<rparr> = Returns True \<and>
   classify Map.empty
     \<lparr> path = js ''en/html/blank1.html'', strictTitle = js ''Engine Removal'',
        dispTitle = js ''Engine Removal'', textLen = 0, simhash = 0 \<rparr>
     [\<lparr> path = js ''en/html/blank2.html'', strictTitle = js ''Engine Removal'',
        dispTitle = js ''Engine Removal'', textLen = 0, simhash = 0 \<rparr>]
     [\<lparr> path = js ''en/html/blank1.html'', strictTitle = js ''Engine Removal'',
        dispTitle = js ''Engine Removal'', textLen = 0, simhash = 0 \<rparr>] []
     = Returns
        ([\<lparr> path = js ''en/html/blank1.html'', strictTitle = js ''Engine Removal'',
            dispTitle = js ''Engine Removal'', textLen = 0, simhash = 0 \<rparr>],
         [\<lparr> path = js ''en/html/blank2.html'', strictTitle = js ''Engine Removal'',
            dispTitle = js ''Engine Removal'', textLen = 0, simhash = 0 \<rparr>])"
proof -
  let ?b1 = "\<lparr> path = js ''en/html/blank1.html'', strictTitle = js ''Engine Removal'',
        dispTitle = js ''Engine Removal'', textLen = 0, simhash = 0 \<rparr>"
  let ?b2 = "\<lparr> path = js ''en/html/blank2.html'', strictTitle = js ''Engine Removal'',
        dispTitle = js ''Engine Removal'', textLen = 0, simhash = 0 \<rparr>"
  have c1: "page_candidate ascii_platform (sample_page ''blank1.html'' ''Engine Removal'' '''') = Some ?b1"
    by code_simp
  have c2: "page_candidate ascii_platform (sample_page ''blank2.html'' ''Engine Removal'' '''') = Some ?b2"
    by code_simp
  have n: "norm (sample_page ''blank1.html'' ''Engine Removal'' '''') = []"
    by (simp add: sample_page_def js_def)
  have z: "simhash ?b1 = 0 \<and> simhash ?b2 = 0"
    by simp
  have zs: "simhash ?b1 = 0 \<and> (\<forall>c \<in> set [?b2]. simhash c = 0)"
    by simp
  from empty_text_members [of ascii_platform "sample_page ''blank1.html'' ''Engine Removal'' ''''"
      ?b1 ?b1 ?b2 Map.empty "[?b2]"] c1 c2 n z zs
  show ?thesis
    by blast
qed


subsection \<open>The strict title of a candidate\<close>

lemma normal_page_strict_title:
  "kind pg = NormalPage \<Longrightarrow>
   snd (page_titles pg) = js_trim (displayTitle (doc pg) (basename (rel pg)))"
  by (simp add: page_titles_def headTitleStrict_def Let_def)

lemma frameset_strict_title:
  "kind pg \<noteq> NormalPage \<Longrightarrow> snd (page_titles pg) = js_trim (title_text (doc pg))"
  by (cases "kind pg") (simp_all add: page_titles_def headTitleStrict_def)

text \<open>
  The later revision stores the normalized title, and groups by it: the group of a
  candidate is the candidates with the same normalized title.
\<close>

lemma page_candidate_v2_strict_title:
  "page_candidate_v2 P pg = Some c \<Longrightarrow> strictTitle c = normalizeTitle (title_text (doc pg))"
  by (auto simp: page_candidate_v2_def headTitleStrict_v2_def Let_def split: if_splits)

lemma candidates_of_v2_set:
  "c \<in> set (candidates_of_v2 P pages) \<longleftrightarrow> (\<exists>pg \<in> set pages. page_candidate_v2 P pg = Some c)"
  unfolding candidates_of_v2_def
  by (induction pages) (auto split: option.splits)

lemma candidates_of_v2_normalized:
  assumes "c \<in> set (candidates_of_v2 P pages)"
  shows "\<exists>pg \<in> set pages. strictTitle c = normalizeTitle (title_text (doc pg))"
    and "(strictTitle c, filter (\<lambda>c'. strictTitle c' = strictTitle c) (candidates_of_v2 P pages))
           \<in> set (byTitle (candidates_of_v2 P pages))"
proof -
  from assms obtain pg where "pg \<in> set pages" "page_candidate_v2 P pg = Some c"
    by (auto simp: candidates_of_v2_set)
  then show "\<exists>pg \<in> set pages. strictTitle c = normalizeTitle (title_text (doc pg))"
    using page_candidate_v2_strict_title by blast
  from assms have "filter (\<lambda>c'. strictTitle c' = strictTitle c) (candidates_of_v2 P pages) \<noteq> []"
    by (auto simp: filter_empty_conv)
  then show "(strictTitle c, filter (\<lambda>c'. strictTitle c' = strictTitle c) (candidates_of_v2 P pages))
           \<in> set (byTitle (candidates_of_v2 P pages))"
    by (simp add: byTitle_group)
qed

text \<open>
  C7. The strict title stored in a candidate, the key of the grouping, is to be the
  normalized title: white-space runs collapsed, invisible characters stripped. In
  \<^verbatim>\<open>build.mjs\<close> it is not. Of two frameset pages titled \<open>Engine  Removal\<close> (two spaces)
  and \<open>Engine Removal\<close> (one space, white space around), whose normalized titles are
  both \<open>Engine Removal\<close>, the candidates of \<^verbatim>\<open>build.mjs\<close> keep \<open>Engine  Removal\<close> and
  \<open>Engine Removal\<close> and fall into two groups. The later revision stores
  \<open>Engine Removal\<close> for both and puts them in one group.
\<close>

theorem strict_title_is_not_normalized:
  "map (\<lambda>pg. title_text (doc pg)) pages_spaced_titles
     = [js ''Engine  Removal'', js '' Engine Removal ''] \<and>
   map (\<lambda>pg. normalizeTitle (title_text (doc pg))) pages_spaced_titles
     = [js ''Engine Removal'', js ''Engine Removal''] \<and>
   map strictTitle (candidates_of ascii_platform pages_spaced_titles)
     = [js ''Engine  Removal'', js ''Engine Removal''] \<and>
   map fst (byTitle (candidates_of ascii_platform pages_spaced_titles))
     = [js ''Engine  Removal'', js ''Engine Removal''] \<and>
   map strictTitle (candidates_of_v2 ascii_platform pages_spaced_titles)
     = [js ''Engine Removal'', js ''Engine Removal''] \<and>
   map fst (byTitle (candidates_of_v2 ascii_platform pages_spaced_titles))
     = [js ''Engine Removal'']"
  by code_simp

text \<open>
  In \<^verbatim>\<open>build.mjs\<close> the branch of a normal page reads the strict title after the display
  title has been written into the title element. A normal page with a blank title and a
  heading becomes a candidate under the heading; in the later revision it is none.
\<close>

lemma blank_title_takes_the_heading:
  "map strictTitle (candidates_of ascii_platform pages_blank_title) = [js ''Overview''] \<and>
   candidates_of_v2 ascii_platform pages_blank_title = []"
  by code_simp


subsection \<open>What the patterns accept\<close>

lemma whitespace_not_quote: "js_whitespace c \<Longrightarrow> c \<noteq> 0x27"
  by (auto simp: js_whitespace_def)

lemma whitespace_not_paren: "js_whitespace c \<Longrightarrow> c \<noteq> 0x29"
  by (auto simp: js_whitespace_def)

lemma whitespace_not_comma: "js_whitespace c \<Longrightarrow> c \<noteq> 0x2C"
  by (auto simp: js_whitespace_def)

lemma whitespace_not_P: "js_whitespace c \<Longrightarrow> ascii_upper c \<noteq> 0x50"
  by (auto simp: js_whitespace_def ascii_upper_def)

lemma digit_not_whitespace: "digit d \<Longrightarrow> \<not> js_whitespace d"
  unfolding digit_def js_whitespace_def
  by (auto simp: word_le_def)

lemma dropWhile_whitespace:
  "list_all js_whitespace ws \<Longrightarrow> \<not> js_whitespace c \<Longrightarrow>
   dropWhile js_whitespace (ws @ c # r) = c # r"
  by (induction ws) simp_all

lemma literal_ci_same: "literal_ci p (p @ r) = Some r"
  by (simp add: literal_ci_def)

lemma quoted_id_accepts:
  assumes "list_all js_whitespace ws" and "wellformed_id ident"
  shows "quoted_id (ws @ [quote] @ ident @ [quote] @ r) = Some (ident, r)"
proof -
  have nq: "\<forall>c \<in> set ident. c \<noteq> 0x27" and ne: "ident \<noteq> []"
    using assms(2) by (auto simp: wellformed_id_def list_ex_iff quote_def)
  have d: "dropWhile js_whitespace (ws @ [quote] @ ident @ [quote] @ r)
         = 0x27 # (ident @ 0x27 # r)"
    using dropWhile_whitespace[OF assms(1), of "0x27" "ident @ 0x27 # r"]
    by (simp add: quote_def js_whitespace_def)
  have t: "takeWhile (\<lambda>c. c \<noteq> 0x27) (ident @ 0x27 # r) = ident"
    using nq by (simp add: takeWhile_append2)
  have dr: "dropWhile (\<lambda>c. c \<noteq> 0x27) (ident @ 0x27 # r) = 0x27 # r"
    using nq by (simp add: dropWhile_append2)
  show ?thesis
    unfolding quoted_id_def d using ne by (simp add: t dr Let_def)
qed

lemma close_paren_accepts:
  "list_all js_whitespace ws \<Longrightarrow> close_paren (ws @ 0x29 # r)"
  using dropWhile_whitespace[of ws "0x29" r]
  by (simp add: close_paren_def js_whitespace_def)

lemma digit_not_quote: "digit d \<Longrightarrow> d \<noteq> 0x27"
  unfolding digit_def by (auto simp: word_le_def)

lemma page_arg_accepts:
  assumes "list_all js_whitespace ws" and "digit d" and "r = [] \<or> hd r \<noteq> 0x27"
  shows "page_arg (page_text (Some (ws, q1, d, q2)) @ r) = Some r"
proof -
  let ?rest = "(if q2 then [quote] else []) @ r"
  have nd: "\<not> js_whitespace d" using assms(2) by (rule digit_not_whitespace)
  have dq: "d \<noteq> 0x27" using assms(2) by (rule digit_not_quote)
  have d1: "dropWhile js_whitespace (ws @ (if q1 then [quote] else []) @ [d] @ ?rest)
        = (if q1 then [quote] else []) @ [d] @ ?rest"
  proof (cases q1)
    case True
    then show ?thesis
      using dropWhile_whitespace[OF assms(1), of "0x27" "d # ?rest"]
      by (simp add: quote_def js_whitespace_def)
  next
    case False
    then show ?thesis
      using dropWhile_whitespace[OF assms(1) nd, of ?rest] by simp
  qed
  have r2: "(case (if q1 then [quote] else []) @ [d] @ ?rest of
               [] \<Rightarrow> (if q1 then [quote] else []) @ [d] @ ?rest
             | q # t \<Rightarrow> if q = 0x27 then t else (if q1 then [quote] else []) @ [d] @ ?rest)
           = d # ?rest"
    using dq by (cases q1) (simp_all add: quote_def)
  have tail: "(case ?rest of [] \<Rightarrow> ?rest | q # t' \<Rightarrow> if q = 0x27 then t' else ?rest) = r"
    using assms(3) by (cases q2; cases r) (simp_all add: quote_def)
  have dg: "0x30 \<le> d \<and> d \<le> 0x39" using assms(2) by (simp add: digit_def)
  have "page_arg (0x2C # ws @ (if q1 then [quote] else []) @ [d] @ ?rest) = Some r"
    unfolding page_arg_def list.case
    by (simp only: if_True Let_def d1 r2 list.case dg tail refl) simp
  then show ?thesis
    by (simp add: page_text_def)
qed

lemma prt_tail_accepts:
  assumes "list_all js_whitespace ws2" and "list_all js_whitespace ws3" and "page_wellformed page"
  shows "prt_tail (ws2 @ page_text page @ ws3 @ 0x29 # r)"
proof (cases page)
  case None
  have "list_all js_whitespace (ws2 @ ws3)" using assms by simp
  from dropWhile_whitespace[OF this, of "0x29" r]
  have "dropWhile js_whitespace (ws2 @ ws3 @ 0x29 # r) = 0x29 # r"
    by (simp add: js_whitespace_def)
  then show ?thesis
    by (simp add: prt_tail_def None page_text_def Let_def close_paren_def js_whitespace_def)
next
  case (Some pg)
  obtain ws q1 d q2 where pg: "pg = (ws, q1, d, q2)" by (cases pg)
  from assms(3) have w: "list_all js_whitespace ws" and dg: "digit d"
    by (simp_all add: page_wellformed_def Some pg)
  let ?r = "ws3 @ 0x29 # r"
  have hd: "?r = [] \<or> hd ?r \<noteq> 0x27"
    using assms(2) by (cases ws3) (auto dest: whitespace_not_quote)
  have comma: "page_text (Some (ws, q1, d, q2)) @ ?r = 0x2C # (ws @ (if q1 then [quote] else []) @ [d]
      @ (if q2 then [quote] else []) @ ?r)"
    by (simp add: page_text_def)
  have "dropWhile js_whitespace (ws2 @ page_text (Some (ws, q1, d, q2)) @ ?r)
      = page_text (Some (ws, q1, d, q2)) @ ?r"
    unfolding comma
    using dropWhile_whitespace[OF assms(1), of "0x2C"] by (simp add: js_whitespace_def)
  moreover have "page_arg (page_text (Some (ws, q1, d, q2)) @ ?r) = Some ?r"
    using w dg hd by (rule page_arg_accepts)
  moreover have "close_paren ?r"
    using assms(2) by (rule close_paren_accepts)
  ultimately show ?thesis
    by (simp add: prt_tail_def Some pg Let_def)
qed

lemma prt_at_accepts:
  assumes "list_all js_whitespace ws1" and "wellformed_id ident"
    and "list_all js_whitespace ws2" and "list_all js_whitespace ws3" and "page_wellformed page"
  shows "prt_at (js ''parent.Prt('' @ ws1 @ [quote] @ ident @ [quote] @ ws2 @ page_text page @ ws3
           @ 0x29 # r) = Some ident"
  using quoted_id_accepts[OF assms(1,2), of "ws2 @ page_text page @ ws3 @ 0x29 # r"]
    prt_tail_accepts[OF assms(3,4,5), of r]
  by (simp add: prt_at_def literal_ci_same)

lemma cts_at_accepts:
  assumes "list_all js_whitespace ws1" and "wellformed_id ident"
  shows "cts_at (js ''parent.Cts('' @ ws1 @ [quote] @ ident @ [quote] @ r) = Some ident"
  using quoted_id_accepts[OF assms, of r]
  by (simp add: cts_at_def literal_ci_same)

subsection \<open>Where the patterns match in an href\<close>

lemma leftmost_hit: "pat s = Some r \<Longrightarrow> leftmost pat s = Some r"
  by (cases s) simp_all

lemma literal_ci_first:
  "literal_ci (p # ps) (c # cs) = Some r \<Longrightarrow> ascii_upper c = ascii_upper p"
  by (auto simp: literal_ci_def fold_case_def split: if_splits)

lemma literal_ci_second:
  "literal_ci (p # q # ps) (c # d # cs) = Some r \<Longrightarrow> ascii_upper d = ascii_upper q"
  by (auto simp: literal_ci_def fold_case_def split: if_splits)

lemma js_parent_Prt: "js ''parent.Prt('' = 0x70 # 0x61 # js ''rent.Prt(''"
  by (simp add: js_def)

lemma js_parent_Cts: "js ''parent.Cts('' = 0x70 # 0x61 # js ''rent.Cts(''"
  by (simp add: js_def)

lemma prt_at_first: "ascii_upper c \<noteq> 0x50 \<Longrightarrow> prt_at (c # cs) = None"
  using literal_ci_first[of "0x70" "0x61 # js ''rent.Prt(''" c cs]
  by (auto simp: prt_at_def js_parent_Prt ascii_upper_def split: option.splits)

lemma prt_at_second: "ascii_upper d \<noteq> 0x41 \<Longrightarrow> prt_at (c # d # cs) = None"
  using literal_ci_second[of "0x70" "0x61" "js ''rent.Prt(''" c d cs]
  by (auto simp: prt_at_def js_parent_Prt ascii_upper_def split: option.splits)

lemma cts_at_first: "ascii_upper c \<noteq> 0x50 \<Longrightarrow> cts_at (c # cs) = None"
  using literal_ci_first[of "0x70" "0x61 # js ''rent.Cts(''" c cs]
  by (auto simp: cts_at_def js_parent_Cts ascii_upper_def split: option.splits)

lemma cts_at_second: "ascii_upper d \<noteq> 0x41 \<Longrightarrow> cts_at (c # d # cs) = None"
  using literal_ci_second[of "0x70" "0x61" "js ''rent.Cts(''" c d cs]
  by (auto simp: cts_at_def js_parent_Cts ascii_upper_def split: option.splits)

lemma leftmost_prt_javascript: "leftmost prt_at (js ''javascript:'' @ r) = leftmost prt_at r"
  by (simp add: js_def prt_at_first prt_at_second ascii_upper_def)

lemma leftmost_cts_javascript: "leftmost cts_at (js ''javascript:'' @ r) = leftmost cts_at r"
  by (simp add: js_def cts_at_first cts_at_second ascii_upper_def)

lemma js_javascript_parent:
  "js ''javascript:parent.Prt('' = js ''javascript:'' @ js ''parent.Prt(''"
  "js ''javascript:parent.Cts('' = js ''javascript:'' @ js ''parent.Cts(''"
  "js ''javascript:parent.Prt('' = js ''javascript:parent.'' @ js ''Prt(''"
  "js ''javascript:parent.Cts('' = js ''javascript:parent.'' @ js ''Cts(''"
  "js '')'' = [0x29]"
  by (simp_all add: js_def)

lemma match_Prt_prt_href:
  assumes "list_all js_whitespace ws1" and "wellformed_id ident"
    and "list_all js_whitespace ws2" and "list_all js_whitespace ws3" and "page_wellformed page"
  shows "match_Prt (prt_href ws1 ident ws2 page ws3) = Some ident"
proof -
  have "prt_href ws1 ident ws2 page ws3
      = js ''javascript:'' @ (js ''parent.Prt('' @ ws1 @ [quote] @ ident @ [quote] @ ws2
          @ page_text page @ ws3 @ 0x29 # [])"
    by (simp add: prt_href_def js_javascript_parent(1,5))
  then show ?thesis
    using leftmost_hit[where pat = prt_at, OF prt_at_accepts[OF assms, of "[]"]]
    by (simp only: match_Prt_def leftmost_prt_javascript)
qed

lemma match_Cts_cts_href:
  assumes "list_all js_whitespace ws1" and "wellformed_id ident"
  shows "match_Cts (cts_href ws1 ident ws2) = Some ident"
proof -
  have "cts_href ws1 ident ws2
      = js ''javascript:'' @ (js ''parent.Cts('' @ ws1 @ [quote] @ ident @ [quote] @ (ws2 @ js '')''))"
    by (simp add: cts_href_def js_javascript_parent(2))
  then show ?thesis
    using leftmost_hit[where pat = cts_at, OF cts_at_accepts[OF assms, of "ws2 @ js '')''"]]
    by (simp only: match_Cts_def leftmost_cts_javascript)
qed

lemma selected_hrefs:
  "startsWith (prt_href ws1 ident ws2 page ws3) (js ''javascript:parent.'')"
  "startsWith (cts_href ws1 ident ws2) (js ''javascript:parent.'')"
  by (simp_all add: startsWith_def prt_href_def cts_href_def js_javascript_parent(3,4))

text \<open>A match of the \<^verbatim>\<open>Prt\<close> pattern has two quotes after its start.\<close>

lemma count_dropWhile_le: "count_list (dropWhile P xs) x \<le> count_list xs x"
  by (induction xs) simp_all

lemma count_drop_le: "count_list (drop n xs) x \<le> count_list xs x"
proof (induction xs arbitrary: n)
  case Nil
  show ?case by simp
next
  case (Cons y ys)
  show ?case
    using Cons[of "n - 1"] by (cases n) (simp_all add: le_SucI)
qed

lemma quoted_id_two_quotes:
  assumes "quoted_id s = Some (ident, r)"
  shows "2 \<le> count_list s 0x27"
proof -
  from assms obtain rr where d: "dropWhile js_whitespace s = 0x27 # rr"
    and ne: "dropWhile (\<lambda>c. c \<noteq> 0x27) rr \<noteq> []"
    by (auto simp: quoted_id_def Let_def split: list.splits if_splits)
  from ne have "hd (dropWhile (\<lambda>c. c \<noteq> 0x27) rr) = 0x27"
    using hd_dropWhile[of "\<lambda>c. c \<noteq> 0x27" rr] by simp
  with ne have "1 \<le> count_list (dropWhile (\<lambda>c. c \<noteq> 0x27) rr) 0x27"
    by (cases "dropWhile (\<lambda>c. c \<noteq> 0x27) rr") simp_all
  then have "1 \<le> count_list rr 0x27"
    using count_dropWhile_le[of "\<lambda>c. c \<noteq> 0x27" rr "0x27"] by simp
  then have "2 \<le> count_list (dropWhile js_whitespace s) 0x27"
    by (simp add: d)
  then show ?thesis
    using count_dropWhile_le[of js_whitespace s "0x27"] by simp
qed

lemma prt_at_two_quotes:
  assumes "prt_at s = Some ident"
  shows "2 \<le> count_list s 0x27"
proof -
  from assms obtain r r' where "literal_ci (js ''parent.Prt('') s = Some r"
    and q: "quoted_id r = Some (ident, r')"
    by (auto simp: prt_at_def split: option.splits if_splits)
  then have "r = drop (length (js ''parent.Prt('')) s"
    by (auto simp: literal_ci_def split: if_splits)
  with quoted_id_two_quotes[OF q] show ?thesis
    using count_drop_le[of "length (js ''parent.Prt('')" s "0x27"] by simp
qed

lemma leftmost_prt_few_quotes:
  "count_list s 0x27 < 2 \<Longrightarrow> leftmost prt_at s = None"
proof (induction s)
  case Nil
  then show ?case
    using prt_at_two_quotes[of "[]"] by (cases "prt_at []") auto
next
  case (Cons c cs)
  have "prt_at (c # cs) = None"
    using prt_at_two_quotes[of "c # cs"] Cons.prems by (cases "prt_at (c # cs)") auto
  moreover have "count_list cs 0x27 < 2"
    using Cons.prems by (simp split: if_splits)
  ultimately show ?case
    using Cons.IH by simp
qed

lemma leftmost_prt_whitespace:
  "list_all js_whitespace ws \<Longrightarrow> leftmost prt_at (ws @ r) = leftmost prt_at r"
  by (induction ws) (simp_all add: prt_at_first whitespace_not_P)

lemma prt_at_parent_Cts: "prt_at (js ''parent.Cts('' @ r) = None"
  by (simp add: prt_at_def literal_ci_def js_def fold_case_def ascii_upper_def)

lemma match_Prt_cts_href:
  assumes "list_all js_whitespace ws1" and "wellformed_id ident" and "list_all js_whitespace ws2"
  shows "match_Prt (cts_href ws1 ident ws2) = None"
proof -
  let ?tail = "ident @ [quote] @ ws2 @ js '')''"
  have c0: "count_list ident 0x27 = 0"
    using assms(2) by (auto simp: wellformed_id_def list_ex_iff quote_def count_list_0_iff)
  have c1: "count_list ws2 0x27 = 0"
    using assms(3) by (auto simp: list_all_iff count_list_0_iff dest: whitespace_not_quote)
  have "count_list ?tail 0x27 < 2"
    by (simp add: c0 c1 quote_def js_def)
  then have t: "leftmost prt_at ?tail = None"
    by (rule leftmost_prt_few_quotes)
  have "leftmost prt_at (js ''parent.Cts('' @ ws1 @ [quote] @ ?tail)
      = leftmost prt_at (ws1 @ [quote] @ ?tail)"
    using prt_at_parent_Cts[of "ws1 @ [quote] @ ?tail"]
    by (simp add: js_def prt_at_first ascii_upper_def)
  also have "\<dots> = leftmost prt_at ([quote] @ ?tail)"
    using assms(1) by (rule leftmost_prt_whitespace)
  also have "\<dots> = leftmost prt_at ?tail"
    by (simp add: quote_def prt_at_first ascii_upper_def)
  finally have "leftmost prt_at (js ''parent.Cts('' @ ws1 @ [quote] @ ?tail) = None"
    using t by simp
  moreover have "cts_href ws1 ident ws2
      = js ''javascript:'' @ (js ''parent.Cts('' @ ws1 @ [quote] @ ?tail)"
    by (simp add: cts_href_def js_javascript_parent(2))
  ultimately show ?thesis
    by (simp only: match_Prt_def leftmost_prt_javascript)
qed

subsection \<open>Resolution of the legacy links\<close>

lemma first_present_None:
  "first_present A r cs = None \<longleftrightarrow> (\<forall>c \<in> set cs. resolveRelative r c \<notin> A)"
  by (induction cs) auto



lemma first_present_absent:
  "\<not> any_present A r ident \<Longrightarrow> first_present A r (candidateTargets ident) = None"
  by (simp add: first_present_None any_present_def list_ex_iff)

lemma rewrite_anchor_selected:
  "startsWith href (js ''javascript:parent.'') \<Longrightarrow>
   rewrite_anchor allPaths docRel href = rewrite_href allPaths docRel href"
  by (simp add: rewrite_anchor_def)

lemma rewrite_anchor_other:
  "\<not> startsWith href (js ''javascript:parent.'') \<Longrightarrow> rewrite_anchor allPaths docRel href = href"
  by (simp add: rewrite_anchor_def)


lemma rewrite_href_inert:
  assumes "\<forall>i. match_Prt href = Some i \<longrightarrow> \<not> any_present allPaths docRel i"
    and "\<forall>i. match_Cts href = Some i \<longrightarrow> \<not> any_present allPaths docRel i"
  shows "rewrite_href allPaths docRel href = js ''#''"
proof -
  from assms have "(case match_Prt href of None \<Rightarrow> None
            | Some i \<Rightarrow> first_present allPaths docRel (candidateTargets i)) = None"
    and "(case match_Cts href of None \<Rightarrow> None
            | Some i \<Rightarrow> first_present allPaths docRel (candidateTargets i)) = None"
    by (auto simp: first_present_absent split: option.splits)
  then show ?thesis
    by (simp add: rewrite_href_def split: option.splits)
qed


lemma match_Cts_no_paren:
  assumes "0x28 \<notin> set s"
  shows "leftmost cts_at s = None"
  using assms
proof (induction s)
  case Nil
  show ?case by (simp add: cts_at_def literal_ci_def js_def)
next
  case (Cons c cs)
  have "cts_at (c # cs) = None"
  proof (rule ccontr)
    assume "cts_at (c # cs) \<noteq> None"
    then obtain r where "literal_ci (js ''parent.Cts('') (c # cs) = Some r"
      by (auto simp: cts_at_def split: option.splits)
    then have "fold_case (take (length (js ''parent.Cts('')) (c # cs)) = fold_case (js ''parent.Cts('')"
      by (auto simp: literal_ci_def split: if_splits)
    moreover have "0x28 \<in> set (fold_case (js ''parent.Cts(''))"
      by (simp add: js_def fold_case_def ascii_upper_def)
    ultimately have "0x28 \<in> set (fold_case (take (length (js ''parent.Cts('')) (c # cs)))"
      by simp
    then have "0x28 \<in> ascii_upper ` set (take (length (js ''parent.Cts('')) (c # cs))"
      unfolding fold_case_def set_map .
    then obtain x where x: "x \<in> set (c # cs)" "ascii_upper x = 0x28"
      by (metis (no_types, lifting) imageE in_set_takeD)
    then have "x = 0x28"
      by (auto simp: ascii_upper_def split: if_splits)
    with x Cons.prems show False by simp
  qed
  with Cons show ?case by simp
qed

lemma cts_at_parent_Prt: "cts_at (js ''parent.Prt('' @ r) = None"
  by (simp add: cts_at_def literal_ci_def js_def fold_case_def ascii_upper_def)

lemma leftmost_cts_parent_Prt: "leftmost cts_at (js ''parent.Prt('' @ r) = leftmost cts_at r"
proof -
  have "leftmost cts_at (js ''parent.Prt('' @ r) = leftmost cts_at (js ''arent.Prt('' @ r)"
    using cts_at_parent_Prt[of r] by (simp add: js_def)
  also have "\<dots> = leftmost cts_at r"
    by (simp add: js_def cts_at_first cts_at_second ascii_upper_def)
  finally show ?thesis .
qed

lemma page_text_no_paren: "page_wellformed page \<Longrightarrow> 0x28 \<notin> set (page_text page)"
  by (auto simp: page_wellformed_def page_text_def quote_def digit_def js_whitespace_def
      list_all_iff word_le_def split: option.splits)

lemma match_Cts_prt_href:
  assumes "list_all js_whitespace ws1" and "0x28 \<notin> set ident"
    and "list_all js_whitespace ws2" and "list_all js_whitespace ws3" and "page_wellformed page"
  shows "match_Cts (prt_href ws1 ident ws2 page ws3) = None"
proof -
  let ?rest = "ws1 @ [quote] @ ident @ [quote] @ ws2 @ page_text page @ ws3 @ js '')''"
  have ws: "0x28 \<notin> set ws" if "list_all js_whitespace ws" for ws
    using that by (auto simp: list_all_iff js_whitespace_def)
  have "0x28 \<notin> set ?rest"
    using ws[OF assms(1)] ws[OF assms(3)] ws[OF assms(4)] assms(2) page_text_no_paren[OF assms(5)]
    by (simp add: quote_def js_javascript_parent(5))
  then have "leftmost cts_at ?rest = None"
    by (rule match_Cts_no_paren)
  moreover have "prt_href ws1 ident ws2 page ws3 = js ''javascript:'' @ (js ''parent.Prt('' @ ?rest)"
    by (simp add: prt_href_def js_javascript_parent(1))
  ultimately show ?thesis
    by (simp only: match_Cts_def leftmost_cts_javascript leftmost_cts_parent_Prt)
qed




text \<open>
  When no candidate of the identifier is in the path set the new href is \<open>#\<close>. For a
  \<^verbatim>\<open>Prt\<close> href this needs an identifier without an opening parenthesis: the
  \<^verbatim>\<open>Cts\<close> pattern is tried next, on the whole href, and it does not ask for a closing
  parenthesis, so it can match inside the arguments of \<^verbatim>\<open>Prt\<close> (the last sample below).
\<close>

lemma legacy_link_unresolved:
  assumes "list_all js_whitespace ws1" and "wellformed_id ident"
    and "list_all js_whitespace ws2" and "list_all js_whitespace ws3" and "page_wellformed page"
    and "\<not> any_present allPaths docRel ident"
  shows "0x28 \<notin> set ident \<Longrightarrow>
           rewrite_anchor allPaths docRel (prt_href ws1 ident ws2 page ws3) = js ''#''"
    and "rewrite_anchor allPaths docRel (cts_href ws1 ident ws2) = js ''#''"
proof -
  assume "0x28 \<notin> set ident"
  then have "match_Cts (prt_href ws1 ident ws2 page ws3) = None"
    using assms by (simp add: match_Cts_prt_href)
  then have "rewrite_href allPaths docRel (prt_href ws1 ident ws2 page ws3) = js ''#''"
    using assms by (intro rewrite_href_inert) (simp_all add: match_Prt_prt_href)
  then show "rewrite_anchor allPaths docRel (prt_href ws1 ident ws2 page ws3) = js ''#''"
    by (simp add: rewrite_anchor_selected selected_hrefs)
next
  have "rewrite_href allPaths docRel (cts_href ws1 ident ws2) = js ''#''"
    using assms by (intro rewrite_href_inert) (simp_all add: match_Prt_cts_href match_Cts_cts_href)
  then show "rewrite_anchor allPaths docRel (cts_href ws1 ident ws2) = js ''#''"
    by (simp add: rewrite_anchor_selected selected_hrefs)
qed

text \<open>
  Samples, evaluated: the example of the specification; letter case is ignored by the
  patterns, not by the selector of the anchors; an identifier can name another
  directory; \<^verbatim>\<open>Jmp\<close> links and hrefs that no pattern matches get \<open>#\<close>; an href that
  does not start with \<^verbatim>\<open>javascript:parent.\<close> is left alone.
\<close>

lemma legacy_link_samples:
  "rewrite_anchor (set [js ''en/html/ABC123_PR1.html'']) (js ''en/html/page.html'')
     (js ''javascript:parent.Prt('ABC123')'') = js ''ABC123_PR1.html''"
  "rewrite_anchor (set [js ''a/A1_PR2.html'', js ''a/A1_PR1.html'']) (js ''a/p.html'')
     (js ''javascript:parent.PRT('A1')'') = js ''A1_PR1.html''"
  "rewrite_anchor (set [js ''a/A1.html'']) (js ''b/p.html'')
     (js ''javascript:parent.Cts('../a/A1')'') = js ''../a/A1.html''"
  "rewrite_anchor (set [js ''a/A1.html'']) (js ''a/p.html'')
     (js ''javascript:parent.Jmp('A1')'') = js ''#''"
  "rewrite_anchor (set [js ''a/A1.html'']) (js ''a/p.html'')
     (js ''javascript:parent.Prt(A1)'') = js ''#''"
  "rewrite_anchor (set [js ''a/A1.html'']) (js ''a/p.html'')
     (js ''JavaScript:parent.Prt('A1')'') = js ''JavaScript:parent.Prt('A1')''"
  by code_simp+

lemma legacy_link_matches:
  "match_Prt (js ''parent.Prt('A1', 2)'') = Some (js ''A1'')"
  "match_Prt (js ''parent.Prt('A1',2')'') = Some (js ''A1'')"
  "match_Prt (js ''parent.Prt('A1',x)'') = None"
  "match_Prt (js ''parent.Prt('' @ [quote, quote] @ js '')'') = None"
  "match_Cts (js ''parent.cts( 'A1', 3)'') = Some (js ''A1'')"
  "match_Cts (js ''parent.Prt('parent.Cts(','1')'') = Some (js '','')"
  by code_simp+

end
